theory Spec2Isabelle
  imports Complex_Main
begin

section \<open>Numbers and optional fields\<close>

text \<open>
  A JavaScript \<open>number\<close> is an IEEE 754 binary64 value: a finite value, NaN, or one of
  the two infinities. A finite value is held as the real it denotes; the two zeros are
  one (the program never tells them apart, except in the sign of a quotient by zero).
\<close>

datatype number = Num real | NaN | PosInfinity | NegInfinity

text \<open>\<open>number | null\<close>, as \<open>calculateRSI\<close> returns it.\<close>

datatype nullable = Null | Value number

text \<open>
  An optional field \<open>f?: number | null\<close>: \<open>Undefined\<close> is "not applicable",
  \<open>Defined Null\<close> is "attempted but unavailable".
\<close>

datatype optional = Undefined | Defined nullable

subsection \<open>Rounding to binary64\<close>

text \<open>
  The exponent of the binade a real lies in, not below that of the subnormal numbers,
  and the distance between neighbouring binary64 values there (53 significant bits).
\<close>

definition binade :: "real \<Rightarrow> int" where
  "binade x = max \<lfloor>log 2 \<bar>x\<bar>\<rfloor> (- 1022)"

definition ulp :: "real \<Rightarrow> real" where
  "ulp x = 2 powr (of_int (binade x) - 52)"

text \<open>The integer closest to \<open>q\<close>, the even one of two.\<close>

definition round_half_even :: "real \<Rightarrow> int" where
  "round_half_even q =
     (let n = \<lfloor>q\<rfloor>; r = q - of_int n
      in if r < 1 / 2 then n else if 1 / 2 < r then n + 1 else if even n then n else n + 1)"

text \<open>
  Round to nearest, ties to even, with an unbounded exponent; a result of magnitude
  \<open>2^1024\<close> or more overflows to an infinity.
\<close>

definition round64 :: "real \<Rightarrow> real" where
  "round64 x = (if x = 0 then 0 else of_int (round_half_even (x / ulp x)) * ulp x)"

definition binary64 :: "real \<Rightarrow> number" where
  "binary64 x =
     (let y = round64 x
      in if 2 ^ 1024 \<le> y then PosInfinity else if y \<le> - (2 ^ 1024) then NegInfinity else Num y)"

subsection \<open>Arithmetic and comparison\<close>

text \<open>
  The operators \<open>-x\<close>, \<open>Math.abs(x)\<close>, \<open>a + b\<close>, \<open>a - b\<close>, \<open>a * b\<close> and \<open>a / b\<close> on numbers:
  the exact result on finite operands, rounded; NaN from NaN, from \<open>\<infinity> - \<infinity>\<close>, \<open>\<infinity> * 0\<close>,
  \<open>0 / 0\<close> and \<open>\<infinity> / \<infinity>\<close>.
\<close>

fun js_neg :: "number \<Rightarrow> number" where
  "js_neg (Num x) = Num (- x)"
| "js_neg NaN = NaN"
| "js_neg PosInfinity = NegInfinity"
| "js_neg NegInfinity = PosInfinity"

fun js_abs :: "number \<Rightarrow> number" where
  "js_abs (Num x) = Num \<bar>x\<bar>"
| "js_abs NaN = NaN"
| "js_abs PosInfinity = PosInfinity"
| "js_abs NegInfinity = PosInfinity"

fun js_add :: "number \<Rightarrow> number \<Rightarrow> number" where
  "js_add (Num a) (Num b) = binary64 (a + b)"
| "js_add NaN b = NaN"
| "js_add a NaN = NaN"
| "js_add PosInfinity NegInfinity = NaN"
| "js_add NegInfinity PosInfinity = NaN"
| "js_add PosInfinity b = PosInfinity"
| "js_add a PosInfinity = PosInfinity"
| "js_add NegInfinity b = NegInfinity"
| "js_add a NegInfinity = NegInfinity"

definition js_sub :: "number \<Rightarrow> number \<Rightarrow> number" where
  "js_sub a b = js_add a (js_neg b)"

fun js_mul :: "number \<Rightarrow> number \<Rightarrow> number" where
  "js_mul (Num a) (Num b) = binary64 (a * b)"
| "js_mul NaN b = NaN"
| "js_mul a NaN = NaN"
| "js_mul PosInfinity (Num b) = (if b = 0 then NaN else if 0 < b then PosInfinity else NegInfinity)"
| "js_mul NegInfinity (Num b) = (if b = 0 then NaN else if 0 < b then NegInfinity else PosInfinity)"
| "js_mul (Num a) PosInfinity = (if a = 0 then NaN else if 0 < a then PosInfinity else NegInfinity)"
| "js_mul (Num a) NegInfinity = (if a = 0 then NaN else if 0 < a then NegInfinity else PosInfinity)"
| "js_mul PosInfinity PosInfinity = PosInfinity"
| "js_mul NegInfinity NegInfinity = PosInfinity"
| "js_mul PosInfinity NegInfinity = NegInfinity"
| "js_mul NegInfinity PosInfinity = NegInfinity"

fun js_div :: "number \<Rightarrow> number \<Rightarrow> number" where
  "js_div (Num a) (Num b) =
     (if b = 0 then (if a = 0 then NaN else if 0 < a then PosInfinity else NegInfinity)
      else binary64 (a / b))"
| "js_div NaN b = NaN"
| "js_div a NaN = NaN"
| "js_div PosInfinity (Num b) = (if 0 \<le> b then PosInfinity else NegInfinity)"
| "js_div NegInfinity (Num b) = (if 0 \<le> b then NegInfinity else PosInfinity)"
| "js_div (Num a) PosInfinity = Num 0"
| "js_div (Num a) NegInfinity = Num 0"
| "js_div PosInfinity PosInfinity = NaN"
| "js_div PosInfinity NegInfinity = NaN"
| "js_div NegInfinity PosInfinity = NaN"
| "js_div NegInfinity NegInfinity = NaN"

text \<open>\<open>a < b\<close>, \<open>a > b\<close> and \<open>a >= b\<close>: false when an operand is NaN.\<close>

fun js_lt :: "number \<Rightarrow> number \<Rightarrow> bool" where
  "js_lt (Num a) (Num b) = (a < b)"
| "js_lt NaN b = False"
| "js_lt a NaN = False"
| "js_lt PosInfinity b = False"
| "js_lt a NegInfinity = False"
| "js_lt NegInfinity b = True"
| "js_lt a PosInfinity = True"

definition js_gt :: "number \<Rightarrow> number \<Rightarrow> bool" where
  "js_gt a b = js_lt b a"

definition js_ge :: "number \<Rightarrow> number \<Rightarrow> bool" where
  "js_ge a b = (a \<noteq> NaN \<and> b \<noteq> NaN \<and> \<not> js_lt a b)"

section \<open>Array helpers\<close>

text \<open>\<open>xs.slice(start, end)\<close> for indices that are natural numbers.\<close>

definition slice :: "nat \<Rightarrow> nat \<Rightarrow> 'a list \<Rightarrow> 'a list" where
  "slice start end' xs = take (end' - start) (drop start xs)"

text \<open>\<open>xs.map((x, i) => f x i)\<close>.\<close>

definition mapi :: "('a \<Rightarrow> nat \<Rightarrow> 'b) \<Rightarrow> 'a list \<Rightarrow> 'b list" where
  "mapi f xs = map (\<lambda>(x, i). f x i) (zip xs [0..<length xs])"

text \<open>\<open>xs.reduce(f, init)\<close>.\<close>

definition reduce :: "('b \<Rightarrow> 'a \<Rightarrow> 'b) \<Rightarrow> 'a list \<Rightarrow> 'b \<Rightarrow> 'b" where
  "reduce f xs init = foldl f init xs"

section \<open>The RSI calculator\<close>

definition RSI_PERIOD :: nat where
  "RSI_PERIOD = 14"

subsection \<open>Over the reals\<close>

text \<open>
  The calculator as an algorithm on real prices, every operation exact: what it
  computes when no operation rounds or overflows.
\<close>





subsection \<open>Over binary64 numbers\<close>

text \<open>
  The calculator as it runs: every \<open>-\<close>, \<open>+\<close>, \<open>*\<close> and \<open>/\<close> is the rounded operation, and
  the comparisons are those of numbers. The period is an integer below \<open>2^53\<close>, held
  exactly.

  \<open>prices.slice(1).map((price, i) => price - prices[i])\<close>
\<close>

definition changes64 :: "number list \<Rightarrow> number list" where
  "changes64 prices = mapi (\<lambda>price i. js_sub price (prices ! i)) (slice 1 (length prices) prices)"

text \<open>The smoothing loop, with the two running averages as the state.\<close>

function smooth64 :: "number list \<Rightarrow> nat \<Rightarrow> nat \<Rightarrow> number \<Rightarrow> number \<Rightarrow> number \<times> number" where
  "smooth64 changes period i avgGain avgLoss =
     (if i < length changes then
        (let change = changes ! i;
             gain = (if js_gt change (Num 0) then change else Num 0);
             loss = (if js_lt change (Num 0) then js_abs change else Num 0)
         in smooth64 changes period (i + 1)
              (js_div (js_add (js_mul avgGain (js_sub (Num (real period)) (Num 1))) gain)
                      (Num (real period)))
              (js_div (js_add (js_mul avgLoss (js_sub (Num (real period)) (Num 1))) loss)
                      (Num (real period))))
      else (avgGain, avgLoss))"
  by pat_completeness auto
termination
  by (relation "measure (\<lambda>(changes, period, i, avgGain, avgLoss). length changes - i)") auto

declare smooth64.simps [simp del]

text \<open>The values of \<open>avgGain\<close> and \<open>avgLoss\<close> when the loop has ended.\<close>

definition rsiAverages :: "number list \<Rightarrow> nat \<Rightarrow> number \<times> number" where
  "rsiAverages prices period =
     (let changes = changes64 prices;
          initialGains = reduce (\<lambda>acc val. js_add acc val)
                           (filter (\<lambda>change. js_gt change (Num 0)) (slice 0 period changes)) (Num 0);
          initialLosses = reduce (\<lambda>acc val. js_add acc (js_abs val))
                           (filter (\<lambda>change. js_lt change (Num 0)) (slice 0 period changes)) (Num 0)
      in smooth64 changes period period
           (js_div initialGains (Num (real period))) (js_div initialLosses (Num (real period))))"

text \<open>\<open>calculateRSI(prices, period)\<close> on numbers.\<close>

definition calculateRSI_binary64 :: "number list \<Rightarrow> nat \<Rightarrow> nullable" where
  "calculateRSI_binary64 prices period =
     (if length prices \<le> period then Null
      else
        (let (avgGain, avgLoss) = rsiAverages prices period
         in if avgLoss = Num 0 then Value (Num 100)
            else (let rs = js_div avgGain avgLoss
                  in Value (js_sub (Num 100) (js_div (Num 100) (js_add (Num 1) rs))))))"

section \<open>The volume formatter\<close>

text \<open>The decimal digits of a non-negative integer, as \<open>ToString\<close> writes them.\<close>

definition digit_char :: "nat \<Rightarrow> char" where
  "digit_char d = ''0123456789'' ! d"

function digits :: "nat \<Rightarrow> string" where
  "digits n = (if n < 10 then [digit_char n] else digits (n div 10) @ [digit_char (n mod 10)])"
  by pat_completeness auto
termination
  by (relation "measure (\<lambda>n. n)") auto

declare digits.simps [simp del]

text \<open>
  \<open>Number::toString\<close> (ECMA-262) of a number from \<open>10^21\<close> on, given the integers \<open>s\<close>
  and \<open>n\<close> it chooses (the shortest digit string \<open>s\<close> that reads back as the number, and
  the decimal exponent \<open>n\<close>, which is above 21 there): the first digit, a point and the
  other digits if there are any, then \<open>e+\<close> and \<open>n - 1\<close>.
\<close>

definition exponential :: "nat \<Rightarrow> nat \<Rightarrow> string" where
  "exponential s n =
     (let m = digits s
      in (if length m = 1 then m else take 1 m @ ''.'' @ drop 1 m) @ ''e+'' @ digits (n - 1))"

text \<open>
  \<open>x.toFixed(f)\<close> after ECMA-262 (Number.prototype.toFixed): a number that is not
  finite is written by name; else the sign is split off; from \<open>10^21\<close> on the result is
  \<open>ToString(x)\<close>, which is exponent notation there; below, \<open>n\<close> is the integer closest to
  \<open>x * 10^f\<close> (the larger one of two), written in decimal, padded with zeros to more than
  \<open>f\<close> digits, with the point before the last \<open>f\<close> digits. The pair \<open>(s, n)\<close> that
  \<open>ToString\<close> chooses for a number from \<open>10^21\<close> on is a parameter, \<open>shortest\<close>.
\<close>

fun toFixed :: "(real \<Rightarrow> nat \<times> nat) \<Rightarrow> number \<Rightarrow> nat \<Rightarrow> string" where
  "toFixed shortest NaN f = ''NaN''"
| "toFixed shortest PosInfinity f = ''Infinity''"
| "toFixed shortest NegInfinity f = ''-Infinity''"
| "toFixed shortest (Num x) f =
     (let s = (if x < 0 then ''-'' else []);
          x = \<bar>x\<bar>
      in if x \<ge> 10 ^ 21 then s @ (case shortest x of (d, n) \<Rightarrow> exponential d n)
         else
           (let n = nat \<lfloor>x * 10 ^ f + 1 / 2\<rfloor>;
                m = digits n;
                m = (if f \<noteq> 0 then
                       (let k = length m;
                            m = (if k \<le> f then replicate (f + 1 - k) (CHR ''0'') @ m else m);
                            k = (if k \<le> f then f + 1 else k)
                        in take (k - f) m @ ''.'' @ drop (k - f) m)
                     else m)
            in s @ m))"

text \<open>\<open>Math.round(x)\<close>: the closest integer, the larger one of two.\<close>

fun Math_round :: "number \<Rightarrow> number" where
  "Math_round (Num x) = Num (of_int \<lfloor>x + 1 / 2\<rfloor>)"
| "Math_round NaN = NaN"
| "Math_round PosInfinity = PosInfinity"
| "Math_round NegInfinity = NegInfinity"

text \<open>The three unit suffixes, as UTF-8: U+C870, U+C5B5, and U+BC31 U+B9CC.\<close>

definition hangul_jo :: string where
  "hangul_jo = [CHR 0xEC, CHR 0xA1, CHR 0xB0]"

definition hangul_eok :: string where
  "hangul_eok = [CHR 0xEC, CHR 0x96, CHR 0xB5]"

definition hangul_baekman :: string where
  "hangul_baekman = [CHR 0xEB, CHR 0xB0, CHR 0xB1, CHR 0xEB, CHR 0xA7, CHR 0x8C]"

text \<open>
  \<open>formatVolume(volume)\<close>. What \<open>n.toLocaleString()\<close> writes depends on the default
  locale of the runtime; it is a parameter, \<open>toLocaleString\<close>.
\<close>

definition formatVolume :: "(real \<Rightarrow> nat \<times> nat) \<Rightarrow> (number \<Rightarrow> string) \<Rightarrow> number \<Rightarrow> string" where
  "formatVolume shortest toLocaleString volume =
     (let trillion = Num 1000000000000;
          billion = Num 1000000000
      in if js_ge volume trillion then toFixed shortest (js_div volume trillion) 2 @ hangul_jo
         else if js_ge volume billion then toFixed shortest (js_div volume billion) 2 @ hangul_eok
         else toLocaleString (Math_round (js_div volume (Num 1000000))) @ hangul_baekman)"

section \<open>Parsed response bodies\<close>

text \<open>
  What \<open>response.json()\<close> resolves to: any JSON value. A string is the list of its code
  units (the program reads only the length of a string and its first unit, and looks
  up ASCII keys, so units beyond one byte are not needed); an object is the list of its
  members in the order of the text.
\<close>

datatype json = JNull | JBool bool | JNumber number | JString string | JArray "json list"
  | JObject "(string \<times> json) list"

text \<open>
  The conversion of a string and of an array to a number (\<open>StringToNumber\<close>, and
  \<open>Array.prototype.toString\<close> followed by it, which throws when an element cannot be
  converted to a string) are parameters.
\<close>

record Runtime =
  StringToNumber :: "string \<Rightarrow> number"
  ArrayToNumber :: "json list \<Rightarrow> unit + number"

text \<open>The own property of a parsed object: the last member with that key.\<close>

definition own :: "(string \<times> json) list \<Rightarrow> string \<Rightarrow> json option" where
  "own members key = map_of (rev members) key"

text \<open>\<open>ToBoolean\<close>.\<close>

fun truthy :: "json \<Rightarrow> bool" where
  "truthy JNull = False"
| "truthy (JBool b) = b"
| "truthy (JNumber n) = (n \<noteq> Num 0 \<and> n \<noteq> NaN)"
| "truthy (JString s) = (s \<noteq> [])"
| "truthy (JArray xs) = True"
| "truthy (JObject members) = True"

text \<open>
  The property access \<open>v.key\<close> and \<open>v[0]\<close>, for the keys the program reads: \<open>length\<close>,
  \<open>0\<close>, \<open>trade_price\<close> and \<open>opening_price\<close>, none of which is on a prototype. \<open>None\<close> is
  \<open>undefined\<close>; the access throws a TypeError (\<open>Inl\<close>) on \<open>undefined\<close> and \<open>null\<close>.
\<close>

fun get :: "json option \<Rightarrow> string \<Rightarrow> unit + json option" where
  "get None key = Inl ()"
| "get (Some JNull) key = Inl ()"
| "get (Some (JBool b)) key = Inr None"
| "get (Some (JNumber n)) key = Inr None"
| "get (Some (JString s)) key =
     Inr (if key = ''length'' then Some (JNumber (Num (real (length s))))
          else if key = ''0'' then (case s of [] \<Rightarrow> None | c # cs \<Rightarrow> Some (JString [c]))
          else None)"
| "get (Some (JArray xs)) key =
     Inr (if key = ''length'' then Some (JNumber (Num (real (length xs))))
          else if key = ''0'' then (case xs of [] \<Rightarrow> None | x # ys \<Rightarrow> Some x)
          else None)"
| "get (Some (JObject members)) key = Inr (own members key)"

text \<open>
  \<open>ToNumber\<close>, as the operators \<open>-\<close>, \<open>/\<close>, \<open>*\<close> and \<open>>\<close> apply it to an operand. A parsed
  object is converted through \<open>valueOf\<close> and \<open>toString\<close>: with the inherited \<open>toString\<close>
  the result is NaN; an own member \<open>toString\<close> is not callable, and the conversion
  throws a TypeError.
\<close>

fun ToNumber :: "Runtime \<Rightarrow> json option \<Rightarrow> unit + number" where
  "ToNumber rt None = Inr NaN"
| "ToNumber rt (Some JNull) = Inr (Num 0)"
| "ToNumber rt (Some (JBool b)) = Inr (Num (if b then 1 else 0))"
| "ToNumber rt (Some (JNumber n)) = Inr n"
| "ToNumber rt (Some (JString s)) = Inr (StringToNumber rt s)"
| "ToNumber rt (Some (JArray xs)) = ArrayToNumber rt xs"
| "ToNumber rt (Some (JObject members)) =
     (if own members ''toString'' = None then Inr NaN else Inl ())"

text \<open>Sequencing: a step that throws ends the computation.\<close>

definition on_value :: "'e + 'a \<Rightarrow> ('a \<Rightarrow> 'e + 'b) \<Rightarrow> 'e + 'b" where
  "on_value r f = (case r of Inl e \<Rightarrow> Inl e | Inr v \<Rightarrow> f v)"

fun all_values :: "('e + 'a) list \<Rightarrow> 'e + 'a list" where
  "all_values [] = Inr []"
| "all_values (r # rs) = on_value r (\<lambda>v. on_value (all_values rs) (\<lambda>vs. Inr (v # vs)))"

text \<open>\<open>v > n\<close> for a value \<open>v\<close> and an integer literal \<open>n\<close>.\<close>

definition exceeds :: "Runtime \<Rightarrow> json option \<Rightarrow> nat \<Rightarrow> unit + bool" where
  "exceeds rt v n = on_value (ToNumber rt v) (\<lambda>x. Inr (js_gt x (Num (real n))))"

section \<open>Upstream API and view state\<close>

record Market =
  market :: string
  korean_name :: string
  english_name :: string

record Ticker =
  ticker_market :: string
  ticker_acc_trade_price_24h :: real

record MarketWithData = Market +
  acc_trade_price_24h :: real
  changeRate :: optional
  rsi :: optional

text \<open>The object one per-market request resolves to.\<close>

record IntervalResult =
  r_market :: string
  r_changeRate :: nullable
  r_rsi :: nullable

text \<open>
  What \<open>fetch\<close> followed by \<open>response.json()\<close> can do: \<open>fetch\<close> rejects; the response is
  not \<open>ok\<close> and carries a status; the response is \<open>ok\<close> and \<open>json()\<close> rejects because the
  body is not JSON; or the body parses.
\<close>

datatype 'a response = Rejected | NotOk nat | BadJson | Json 'a

record Upstream =
  marketAll :: "Market list response"
  ticker :: "string list \<Rightarrow> Ticker list response"
  candles :: "string \<Rightarrow> string \<Rightarrow> json response"

datatype request = GetMarketAll | GetTicker "string list" | GetCandles string string

text \<open>
  The texts \<open>setError\<close> receives: the two status messages of the snapshot fetch, the
  message of an exception that \<open>fetch\<close> or \<open>json()\<close> threw, and the fixed text of the
  interval fetch.
\<close>

datatype message = MarketListFailed nat | TickerFailed nat | ExceptionMessage | CandleLoadFailed

record AppState =
  markets :: "MarketWithData list"
  isLoading :: bool
  isIntervalLoading :: bool
  error :: "message option"
  selectedInterval :: string

text \<open>\<open>new Map(entries)\<close>: a later entry replaces an earlier one with the same key.\<close>

definition new_Map :: "('k \<times> 'v) list \<Rightarrow> ('k \<rightharpoonup> 'v)" where
  "new_Map entries = foldl (\<lambda>m (k, v). m(k \<mapsto> v)) Map.empty entries"

definition startsWith :: "string \<Rightarrow> string \<Rightarrow> bool" where
  "startsWith s p = (take (length p) s = p)"

text \<open>
  \<open>xs.sort(cmp)\<close>: a stable sort (ECMAScript 2019). For a comparator that is a
  consistent order every stable sort returns the list that insertion from the right
  builds.
\<close>

fun insert_cmp :: "('a \<Rightarrow> 'a \<Rightarrow> real) \<Rightarrow> 'a \<Rightarrow> 'a list \<Rightarrow> 'a list" where
  "insert_cmp cmp x [] = [x]"
| "insert_cmp cmp x (y # ys) = (if cmp x y \<le> 0 then x # y # ys else y # insert_cmp cmp x ys)"

definition sort_cmp :: "('a \<Rightarrow> 'a \<Rightarrow> real) \<Rightarrow> 'a list \<Rightarrow> 'a list" where
  "sort_cmp cmp xs = foldr (insert_cmp cmp) xs []"

section \<open>The market snapshot fetcher\<close>

definition BATCH_SIZE :: nat where
  "BATCH_SIZE = 100"

text \<open>
  The batch loop \<open>for (let i = 0; i < krwMarketCodes.length; i += BATCH_SIZE)\<close>. The
  state is the index, the tickers collected and the requests issued so far; a failing
  batch ends the loop with the message of the thrown error.
\<close>

function tickerLoop ::
  "(string list \<Rightarrow> Ticker list response) \<Rightarrow> string list \<Rightarrow> nat \<Rightarrow> Ticker list \<Rightarrow> request list
     \<Rightarrow> request list \<times> (message + Ticker list)" where
  "tickerLoop tick krwMarketCodes i tickerData issued =
     (if i < length krwMarketCodes then
        (let batch = slice i (i + BATCH_SIZE) krwMarketCodes;
             issued' = issued @ [GetTicker batch]
         in case tick batch of
              Rejected \<Rightarrow> (issued', Inl ExceptionMessage)
            | NotOk status \<Rightarrow> (issued', Inl (TickerFailed status))
            | BadJson \<Rightarrow> (issued', Inl ExceptionMessage)
            | Json batchData \<Rightarrow>
                tickerLoop tick krwMarketCodes (i + BATCH_SIZE) (tickerData @ batchData) issued')
      else (issued, Inr tickerData))"
  by pat_completeness auto
termination
  by (relation "measure (\<lambda>(tick, krwMarketCodes, i, tickerData, issued). length krwMarketCodes - i)")
     (auto simp: BATCH_SIZE_def)

declare tickerLoop.simps [simp del]

text \<open>
  \<open>combinedData.sort((a, b) => b.acc_trade_price_24h - a.acc_trade_price_24h).slice(0, 15)\<close>
\<close>

definition top15Markets :: "MarketWithData list \<Rightarrow> MarketWithData list" where
  "top15Markets combinedData =
     slice 0 15 (sort_cmp (\<lambda>a b. acc_trade_price_24h b - acc_trade_price_24h a) combinedData)"

text \<open>
  \<open>tickerData.map(ticker => ({...ticker, korean_name: ..., english_name: ...}))\<close>; a
  ticker without catalog entry gets empty names. The two optional fields are absent.
\<close>

definition combine :: "Market list \<Rightarrow> Ticker list \<Rightarrow> MarketWithData list" where
  "combine krwMarkets tickerData =
     (let marketInfoMap = new_Map (map (\<lambda>m. (market m, (korean_name m, english_name m))) krwMarkets)
      in map (\<lambda>t. \<lparr>market = ticker_market t,
                    korean_name = (case marketInfoMap (ticker_market t) of
                                     None \<Rightarrow> [] | Some info \<Rightarrow> fst info),
                    english_name = (case marketInfoMap (ticker_market t) of
                                     None \<Rightarrow> [] | Some info \<Rightarrow> snd info),
                    acc_trade_price_24h = ticker_acc_trade_price_24h t,
                    changeRate = Undefined,
                    rsi = Undefined\<rparr>) tickerData)"

text \<open>
  \<open>fetchTopMarkets\<close>: the requests issued, in order, and the view state after the
  \<open>finally\<close> block.
\<close>

definition fetchTopMarkets :: "Upstream \<Rightarrow> AppState \<Rightarrow> request list \<times> AppState" where
  "fetchTopMarkets up s =
     (let s1 = s\<lparr>isLoading := True, error := None\<rparr>;
          failed = (\<lambda>msg. s1\<lparr>error := Some msg, isLoading := False\<rparr>)
      in case marketAll up of
           Rejected \<Rightarrow> ([GetMarketAll], failed ExceptionMessage)
         | NotOk status \<Rightarrow> ([GetMarketAll], failed (MarketListFailed status))
         | BadJson \<Rightarrow> ([GetMarketAll], failed ExceptionMessage)
         | Json allMarkets \<Rightarrow>
             (let krwMarkets = filter (\<lambda>m. startsWith (market m) ''KRW-'') allMarkets;
                  krwMarketCodes = map market krwMarkets
              in case tickerLoop (ticker up) krwMarketCodes 0 [] [GetMarketAll] of
                   (issued, Inl msg) \<Rightarrow> (issued, failed msg)
                 | (issued, Inr tickerData) \<Rightarrow>
                     (issued, s1\<lparr>markets := top15Markets (combine krwMarkets tickerData),
                                 isLoading := False\<rparr>)))"

section \<open>The interval data fetcher\<close>

text \<open>
  The values of the variables \<open>changeRate\<close> and \<open>rsi\<close> of one
  \<open>markets.map(async (market) => ...)\<close> callback after its \<open>if\<close> statement, for the
  parsed body \<open>candleData\<close>; \<open>Inl\<close> is a TypeError thrown on the way. \<open>candleData.map\<close>
  is a function for an array only. The closing prices reach \<open>calculateRSI\<close> as they
  were parsed; there are more than \<open>RSI_PERIOD\<close> of them, so each one is an operand of
  a subtraction, which converts it to a number.
\<close>

definition candleValues :: "Runtime \<Rightarrow> json \<Rightarrow> unit + nullable \<times> nullable" where
  "candleValues rt candleData =
     (if \<not> truthy candleData then Inr (Null, Null)
      else
        on_value (get (Some candleData) ''length'') (\<lambda>len.
        on_value (exceeds rt len 0) (\<lambda>nonempty.
          if \<not> nonempty then Inr (Null, Null)
          else
            on_value (get (Some candleData) ''0'') (\<lambda>latestCandle.
            on_value (get latestCandle ''trade_price'') (\<lambda>trade.
            on_value (get latestCandle ''opening_price'') (\<lambda>opening.
            on_value (ToNumber rt trade) (\<lambda>t.
            on_value (ToNumber rt opening) (\<lambda>p.
              (let changeRate = js_mul (js_div (js_sub t p) p) (Num 100)
               in on_value (exceeds rt len RSI_PERIOD) (\<lambda>enough.
                    if enough then
                      (case candleData of
                         JArray cs \<Rightarrow>
                           on_value (all_values (map (\<lambda>c. get (Some c) ''trade_price'') cs)) (\<lambda>closes.
                           on_value (all_values (map (ToNumber rt) (rev closes))) (\<lambda>prices.
                             Inr (Value changeRate, calculateRSI_binary64 prices RSI_PERIOD)))
                       | _ \<Rightarrow> Inl ())
                    else Inr (Value changeRate, Null)))))))))))"

text \<open>
  The body of one callback: \<open>Inl\<close> is a rejected promise, \<open>Inr\<close> the object it resolves
  to.
\<close>

definition candleTask :: "Runtime \<Rightarrow> Upstream \<Rightarrow> string \<Rightarrow> MarketWithData \<Rightarrow> unit + IntervalResult" where
  "candleTask rt up interval m =
     (case candles up interval (market m) of
        Rejected \<Rightarrow> Inl ()
      | NotOk status \<Rightarrow> Inr \<lparr>r_market = market m, r_changeRate = Null, r_rsi = Null\<rparr>
      | BadJson \<Rightarrow> Inl ()
      | Json candleData \<Rightarrow>
          on_value (candleValues rt candleData) (\<lambda>(changeRate, rsi).
            Inr \<lparr>r_market = market m, r_changeRate = changeRate, r_rsi = rsi\<rparr>))"

text \<open>\<open>Promise.all\<close>: rejects when one of the promises does, else the results in order.\<close>

fun promise_all :: "('e + 'a) list \<Rightarrow> 'e + 'a list" where
  "promise_all [] = Inr []"
| "promise_all (Inl e # ps) = Inl e"
| "promise_all (Inr x # ps) = (case promise_all ps of Inl e \<Rightarrow> Inl e | Inr xs \<Rightarrow> Inr (x # xs))"

text \<open>
  The updater given to \<open>setMarkets\<close> once all requests have settled; \<open>currentMarkets\<close> is
  the list held then.
\<close>

definition mergeIntervalData :: "IntervalResult list \<Rightarrow> MarketWithData list \<Rightarrow> MarketWithData list" where
  "mergeIntervalData results currentMarkets =
     (let newIntervalData = new_Map (map (\<lambda>r. (r_market r, (r_changeRate r, r_rsi r))) results)
      in map (\<lambda>m. m\<lparr>changeRate := (case newIntervalData (market m) of
                                      None \<Rightarrow> Undefined | Some d \<Rightarrow> Defined (fst d)),
                     rsi := (case newIntervalData (market m) of
                               None \<Rightarrow> Undefined | Some d \<Rightarrow> Defined (snd d))\<rparr>) currentMarkets)"

text \<open>
  \<open>fetchIntervalData\<close>: every callback issues its request before the first one is
  answered, so the requests are those of all markets, in list order. The list the
  updater is applied to is taken to be the one the effect ran with.
\<close>

definition fetchIntervalData :: "Runtime \<Rightarrow> Upstream \<Rightarrow> AppState \<Rightarrow> request list \<times> AppState" where
  "fetchIntervalData rt up s =
     (let s1 = s\<lparr>isIntervalLoading := True\<rparr>;
          issued = map (\<lambda>m. GetCandles (selectedInterval s) (market m)) (markets s);
          promises = map (candleTask rt up (selectedInterval s)) (markets s)
      in case promise_all promises of
           Inl e \<Rightarrow> (issued, s1\<lparr>error := Some CandleLoadFailed, isIntervalLoading := False\<rparr>)
         | Inr results \<Rightarrow>
             (issued, s1\<lparr>markets := mergeIntervalData results (markets s1),
                         isIntervalLoading := False\<rparr>))"

text \<open>The effect that runs when the selected interval changes.\<close>

definition intervalEffect :: "Runtime \<Rightarrow> Upstream \<Rightarrow> AppState \<Rightarrow> request list \<times> AppState" where
  "intervalEffect rt up s =
     (if selectedInterval s = ''24h'' then
        ([], s\<lparr>markets := map (\<lambda>m. m\<lparr>changeRate := Undefined, rsi := Undefined\<rparr>) (markets s)\<rparr>)
      else if length (markets s) = 0 then ([], s)
      else fetchIntervalData rt up s)"

section \<open>Example data\<close>

definition example_market :: "string \<Rightarrow> MarketWithData" where
  "example_market code =
     \<lparr>market = code, korean_name = [], english_name = [], acc_trade_price_24h = 0,
      changeRate = Undefined, rsi = Undefined\<rparr>"

definition example_state :: "MarketWithData list \<Rightarrow> string \<Rightarrow> AppState" where
  "example_state ms interval =
     \<lparr>markets = ms, isLoading = False, isIntervalLoading = False, error = None,
      selectedInterval = interval\<rparr>"

definition example_upstream :: "(string \<Rightarrow> string \<Rightarrow> json response) \<Rightarrow> Upstream" where
  "example_upstream c = \<lparr>marketAll = Rejected, ticker = (\<lambda>batch. Rejected), candles = c\<rparr>"


definition example_runtime :: Runtime where
  "example_runtime = \<lparr>StringToNumber = (\<lambda>s. NaN), ArrayToNumber = (\<lambda>xs. Inr NaN)\<rparr>"

text \<open>Two binary64 values: \<open>2^1023\<close>, and the one the literal \<open>1e34\<close> denotes.\<close>

definition example_huge :: real where
  "example_huge = 2 ^ 1023"

definition example_1e34 :: real where
  "example_1e34 = 9999999999999999455752309870428160"

section \<open>The RSI algorithm as specified\<close>

text \<open>The deltas between consecutive prices.\<close>

definition deltas :: "real list \<Rightarrow> real list" where
  "deltas prices = map (\<lambda>i. prices ! Suc i - prices ! i) [0..<length prices - 1]"

text \<open>The positive and the negative part of a delta, 0 otherwise.\<close>

definition gain_of :: "real \<Rightarrow> real" where
  "gain_of d = (if d > 0 then d else 0)"

definition loss_of :: "real \<Rightarrow> real" where
  "loss_of d = (if d < 0 then - d else 0)"


text \<open>One step of Wilder smoothing on the pair (average gain, average loss).\<close>

definition wilder_step :: "nat \<Rightarrow> real \<times> real \<Rightarrow> real \<Rightarrow> real \<times> real" where
  "wilder_step P avgs d =
     ((fst avgs * (real P - 1) + gain_of d) / real P,
      (snd avgs * (real P - 1) + loss_of d) / real P)"

definition rsi_of_averages :: "real \<times> real \<Rightarrow> real" where
  "rsi_of_averages avgs =
     (if snd avgs = 0 then 100 else 100 - 100 / (1 + fst avgs / snd avgs))"


text \<open>
  Wilder's seeds: the sum of the positive deltas and the sum of the absolute negative
  deltas among the first \<open>P\<close> deltas, each divided by \<open>P\<close>.
\<close>

definition wilder_RSI :: "real list \<Rightarrow> nat \<Rightarrow> real" where
  "wilder_RSI prices P =
     (let ds = deltas prices;
          seedGain = sum_list (filter (\<lambda>d. d > 0) (take P ds)) / real P;
          seedLoss = sum_list (map abs (filter (\<lambda>d. d < 0) (take P ds))) / real P
      in rsi_of_averages (foldl (wilder_step P) (seedGain, seedLoss) (drop P ds)))"

text \<open>
  The final averages for which the calculator on numbers returns NaN: the average loss
  is NaN, or the average gain is NaN and the loss is not 0, or both are infinite.
\<close>

definition averages_give_NaN :: "number \<times> number \<Rightarrow> bool" where
  "averages_give_NaN avgs =
     (snd avgs = NaN \<or> (snd avgs \<noteq> Num 0 \<and> fst avgs = NaN)
      \<or> (snd avgs = PosInfinity \<and> fst avgs = PosInfinity))"

text \<open>A number that is not negative: a finite one from 0 on, the positive infinity, or NaN.\<close>

fun nonneg :: "number \<Rightarrow> bool" where
  "nonneg (Num x) = (0 \<le> x)"
| "nonneg NaN = True"
| "nonneg PosInfinity = True"
| "nonneg NegInfinity = False"

text \<open>A finite number of magnitude at most \<open>B\<close>.\<close>

fun at_most :: "real \<Rightarrow> number \<Rightarrow> bool" where
  "at_most B (Num x) = (\<bar>x\<bar> \<le> B)"
| "at_most B NaN = False"
| "at_most B PosInfinity = False"
| "at_most B NegInfinity = False"

section \<open>Batches, ranking and formatting as specified\<close>

text \<open>
  The batches of at most 100 codes, in input order: batch \<open>k\<close> holds the codes from
  position \<open>100 * k\<close> on, and there are \<open>ceil(K / 100)\<close> of them.
\<close>

definition batches_of :: "'a list \<Rightarrow> 'a list list" where
  "batches_of codes =
     map (\<lambda>k. take 100 (drop (100 * k) codes)) [0..<nat \<lceil>real (length codes) / 100\<rceil>]"

text \<open>
  A non-negative number with two decimals: the number of hundredths closest to it (the
  larger one of two), written as its integer part, a point and two digits.
\<close>

definition two_decimals :: "real \<Rightarrow> string" where
  "two_decimals x =
     (let n = nat \<lfloor>x * 100 + 1 / 2\<rfloor>
      in digits (n div 100) @ ''.'' @ [digit_char (n div 10 mod 10), digit_char (n mod 10)])"

section \<open>Candle payloads as specified\<close>

text \<open>
  The payloads that carry no candle: \<open>null\<close>, a boolean, a number, the empty string,
  the empty array, and an object whose \<open>length\<close> is absent or converts, without
  throwing, to a number that is not greater than 0.
\<close>

fun insufficient :: "Runtime \<Rightarrow> json \<Rightarrow> bool" where
  "insufficient rt JNull = True"
| "insufficient rt (JBool b) = True"
| "insufficient rt (JNumber n) = True"
| "insufficient rt (JString s) = (s = [])"
| "insufficient rt (JArray xs) = (xs = [])"
| "insufficient rt (JObject members) =
     (case ToNumber rt (own members ''length'') of Inl e \<Rightarrow> False | Inr x \<Rightarrow> \<not> js_gt x (Num 0))"





text \<open>No request of the interval fetch throws: every callback resolves.\<close>

definition no_request_throws :: "Runtime \<Rightarrow> Upstream \<Rightarrow> AppState \<Rightarrow> bool" where
  "no_request_throws rt up s \<longleftrightarrow>
     list_all (\<lambda>m. case candleTask rt up (selectedInterval s) m of Inl e \<Rightarrow> False | Inr r \<Rightarrow> True)
       (markets s)"

section \<open>Properties of rounding\<close>

lemma ulp_pos: "0 < ulp x"
  by (simp add: ulp_def)

lemma round_half_even_lower: "\<lfloor>q\<rfloor> \<le> round_half_even q"
  by (simp add: round_half_even_def Let_def)

lemma round_half_even_upper: "round_half_even q \<le> \<lfloor>q\<rfloor> + 1"
  by (simp add: round_half_even_def Let_def)

lemma round_half_even_int: "round_half_even (of_int k) = k"
  by (simp add: round_half_even_def Let_def)

lemma round_half_even_ge: "of_int k \<le> q \<Longrightarrow> k \<le> round_half_even q"
proof -
  assume "of_int k \<le> q"
  then have "k \<le> \<lfloor>q\<rfloor>" by (simp add: le_floor_iff)
  then show ?thesis using round_half_even_lower[of q] by linarith
qed

lemma round_half_even_le:
  assumes "q \<le> of_int k"
  shows "round_half_even q \<le> k"
proof (cases "q = of_int k")
  case True
  then show ?thesis by (simp add: round_half_even_int)
next
  case False
  then have "q < of_int k" using assms by simp
  then have "\<lfloor>q\<rfloor> < k" by (simp add: floor_less_iff)
  then show ?thesis using round_half_even_upper[of q] by simp
qed

lemma round64_zero: "round64 0 = 0"
  by (simp add: round64_def)

lemma round64_nonneg: "0 \<le> x \<Longrightarrow> 0 \<le> round64 x"
proof -
  assume "0 \<le> x"
  then have "of_int 0 \<le> x / ulp x" using ulp_pos[of x] by simp
  then have "0 \<le> round_half_even (x / ulp x)" by (rule round_half_even_ge)
  then show ?thesis using ulp_pos[of x] by (simp add: round64_def)
qed

lemma round64_nonpos: "x \<le> 0 \<Longrightarrow> round64 x \<le> 0"
proof -
  assume "x \<le> 0"
  then have "x / ulp x \<le> of_int 0" using ulp_pos[of x] by (simp add: divide_le_0_iff)
  then have "round_half_even (x / ulp x) \<le> 0" by (rule round_half_even_le)
  then show ?thesis using ulp_pos[of x] by (simp add: round64_def mult_le_0_iff)
qed

text \<open>The binade of a positive number.\<close>

lemma floor_log2_bounds:
  fixes x :: real
  assumes "0 < x"
  shows "2 powr of_int \<lfloor>log 2 x\<rfloor> \<le> x" and "x < 2 powr (of_int \<lfloor>log 2 x\<rfloor> + 1)"
  using floor_log_eq_powr_iff[of x 2 "\<lfloor>log 2 x\<rfloor>"] assms by simp_all

lemma floor_log2_eq:
  fixes x :: real
  assumes "2 powr of_int k \<le> x" and "x < 2 powr (of_int k + 1)"
  shows "\<lfloor>log 2 x\<rfloor> = k"
proof -
  have "(0::real) < 2 powr of_int k" by simp
  then have "0 < x" using assms(1) by linarith
  then show ?thesis using floor_log_eq_powr_iff[of x 2 k] assms by simp
qed


lemma binade_pos:
  fixes x :: real
  assumes "0 < x"
  shows "2 powr of_int \<lfloor>log 2 x\<rfloor> \<le> x" and "\<lfloor>log 2 x\<rfloor> \<le> binade x" and "- 1022 \<le> binade x"
  using floor_log2_bounds(1)[OF assms] assms by (simp_all add: binade_def)

lemma binade_below:
  fixes x :: real
  assumes "x \<noteq> 0" and "\<bar>x\<bar> < 2 powr (of_int k + 1)" and "- 1022 \<le> k"
  shows "binade x \<le> k"
proof -
  have "0 < \<bar>x\<bar>" using assms(1) by simp
  then have "2 powr of_int \<lfloor>log 2 \<bar>x\<bar>\<rfloor> \<le> \<bar>x\<bar>" by (rule floor_log2_bounds(1))
  then have "(2::real) powr of_int \<lfloor>log 2 \<bar>x\<bar>\<rfloor> < 2 powr (of_int k + 1)"
    using assms(2) by linarith
  then have "of_int \<lfloor>log 2 \<bar>x\<bar>\<rfloor> < (of_int k + 1 :: real)" by simp
  then have "\<lfloor>log 2 \<bar>x\<bar>\<rfloor> \<le> k" by linarith
  then show ?thesis using assms(3) by (simp add: binade_def)
qed

lemma powr_int_nat: "0 \<le> d \<Longrightarrow> (2::real) powr of_int d = of_int (2 ^ nat d)"
proof -
  assume "0 \<le> d"
  then have "(2::real) powr of_int d = 2 powr real (nat d)" by simp
  also have "\<dots> = 2 ^ nat d" by (rule powr_realpow) simp
  finally show ?thesis by simp
qed

lemma pow_over_ulp: "2 powr r / ulp x = 2 powr (r - (of_int (binade x) - 52))"
  unfolding ulp_def by (rule powr_diff[symmetric])

lemma round64_of_multiple:
  assumes "x / ulp x = of_int n"
  shows "round64 x = x"
proof (cases "x = 0")
  case True
  then show ?thesis by (simp add: round64_zero)
next
  case False
  have "round_half_even (x / ulp x) = n" unfolding assms by (rule round_half_even_int)
  then have "round64 x = of_int n * ulp x" using False by (simp add: round64_def)
  also have "\<dots> = (x / ulp x) * ulp x" by (simp only: assms)
  also have "\<dots> = x" using ulp_pos[of x] by simp
  finally show ?thesis .
qed

lemma round64_exact:
  assumes x: "x = of_int m * 2 powr of_int e" and m: "\<bar>m\<bar> < 2 ^ 53" and e: "- 1074 \<le> e"
  shows "round64 x = x"
proof (cases "x = 0")
  case True
  then show ?thesis by (simp add: round64_zero)
next
  case False
  have "\<bar>x\<bar> = of_int \<bar>m\<bar> * 2 powr of_int e" by (simp add: x abs_mult)
  also have "\<dots> < 2 ^ 53 * 2 powr of_int e"
  proof -
    have "(of_int \<bar>m\<bar> :: real) < of_int (2 ^ 53)" using m by (simp only: of_int_less_iff)
    then show ?thesis by simp
  qed
  also have "\<dots> = 2 powr (of_int (e + 52) + 1)"
  proof -
    have "(2::real) ^ 53 = 2 powr 53" by simp
    then show ?thesis by (simp add: powr_add)
  qed
  finally have lt: "\<bar>x\<bar> < 2 powr (of_int (e + 52) + 1)" .
  have "(2::real) powr (of_int (e + 52) + 1) \<le> 2 powr (of_int (max (e + 52) (- 1022)) + 1)"
    by simp
  then have "\<bar>x\<bar> < 2 powr (of_int (max (e + 52) (- 1022)) + 1)" using lt by linarith
  then have "binade x \<le> max (e + 52) (- 1022)" using False by (intro binade_below) simp_all
  then have d: "0 \<le> e - (binade x - 52)" using e by linarith
  have "x / ulp x = of_int m * (2 powr of_int e / ulp x)" by (simp add: x)
  also have "\<dots> = of_int m * 2 powr (of_int e - (of_int (binade x) - 52))"
    by (simp only: pow_over_ulp)
  also have "\<dots> = of_int m * 2 powr of_int (e - (binade x - 52))" by simp
  also have "\<dots> = of_int m * of_int (2 ^ nat (e - (binade x - 52)))"
    by (simp only: powr_int_nat[OF d])
  also have "\<dots> = of_int (m * 2 ^ nat (e - (binade x - 52)))" by simp
  finally show ?thesis by (rule round64_of_multiple)
qed

lemma round64_int: "\<bar>m\<bar> < 2 ^ 53 \<Longrightarrow> round64 (of_int m) = of_int m"
  using round64_exact[of "of_int m" m 0] by simp

lemma round64_int_times_pow2:
  assumes "\<bar>m\<bar> < 2 ^ 53"
  shows "round64 (of_int m * 2 ^ n) = of_int m * 2 ^ n"
proof -
  have "(2::real) ^ n = 2 powr of_int (int n)" by (simp add: powr_realpow)
  then have "(of_int m :: real) * 2 ^ n = of_int m * 2 powr of_int (int n)" by (simp only:)
  then show ?thesis using assms by (intro round64_exact[of _ m "int n"]) simp_all
qed

lemma round64_ge_one:
  assumes "1 \<le> x"
  shows "1 \<le> round64 x"
proof -
  have pos: "0 < x" using assms by simp
  have "0 \<le> log 2 x" using assms by simp
  then have f0: "0 \<le> \<lfloor>log 2 x\<rfloor>" by simp
  have b: "binade x = \<lfloor>log 2 x\<rfloor>"
  proof -
    have "\<bar>x\<bar> = x" using pos by simp
    then have "binade x = max \<lfloor>log 2 x\<rfloor> (- 1022)" by (simp only: binade_def)
    then show ?thesis using f0 by linarith
  qed
  have low: "2 powr of_int (binade x) \<le> x" unfolding b using pos by (rule floor_log2_bounds(1))
  have "2 powr of_int (binade x) / ulp x = 2 powr (of_int (binade x) - (of_int (binade x) - 52))"
    by (rule pow_over_ulp)
  also have "\<dots> = 2 powr of_int 52" by simp
  also have "\<dots> = of_int (2 ^ 52)" by simp
  finally have ratio: "2 powr of_int (binade x) / ulp x = of_int (2 ^ 52)" .
  have "2 powr of_int (binade x) / ulp x \<le> x / ulp x"
    using low ulp_pos[of x] by (intro divide_right_mono) simp_all
  then have "of_int (2 ^ 52) \<le> x / ulp x" by (simp only: ratio)
  then have "2 ^ 52 \<le> round_half_even (x / ulp x)" by (rule round_half_even_ge)
  then have "(of_int (2 ^ 52) :: real) \<le> of_int (round_half_even (x / ulp x))"
    by (simp only: of_int_le_iff)
  then have "of_int (2 ^ 52) * ulp x \<le> of_int (round_half_even (x / ulp x)) * ulp x"
    using ulp_pos[of x] by (intro mult_right_mono) simp_all
  moreover have "round64 x = of_int (round_half_even (x / ulp x)) * ulp x"
    using pos by (simp add: round64_def)
  moreover have "of_int (2 ^ 52) * ulp x = 2 powr of_int (binade x)"
  proof -
    have "(2 powr of_int (binade x) / ulp x) * ulp x = 2 powr of_int (binade x)"
      using ulp_pos[of x] by simp
    then show ?thesis by (simp only: ratio)
  qed
  moreover have "(1::real) \<le> 2 powr of_int (binade x)"
  proof (rule ge_one_powr_ge_zero)
    show "(1::real) \<le> 2" by simp
    show "0 \<le> (of_int (binade x) :: real)" unfolding b using f0 by (simp only: of_int_0_le_iff)
  qed
  ultimately show ?thesis by linarith
qed

lemma round64_le_nat:
  assumes "0 \<le> x" and "x \<le> real K" and "K < 2 ^ 52"
  shows "round64 x \<le> real K"
proof (cases "x = 0")
  case True
  then show ?thesis by (simp add: round64_zero)
next
  case False
  have "real K < real (2 ^ 52)" using assms(3) by (simp only: of_nat_less_iff)
  then have "\<bar>x\<bar> < 2 powr (of_int 51 + 1)" using assms(1,2) by simp
  then have b: "binade x \<le> 51" using False by (intro binade_below) simp_all
  then have d: "0 \<le> 0 - (binade x - 52)" by linarith
  have "1 / ulp x = 2 powr of_int 0 / ulp x" by simp
  also have "\<dots> = 2 powr (of_int 0 - (of_int (binade x) - 52))" by (rule pow_over_ulp)
  also have "\<dots> = 2 powr of_int (0 - (binade x - 52))" by simp
  also have "\<dots> = of_int (2 ^ nat (0 - (binade x - 52)))" by (simp only: powr_int_nat[OF d])
  finally have inv: "1 / ulp x = of_int (2 ^ nat (0 - (binade x - 52)))" .
  have "real K / ulp x = real K * (1 / ulp x)" by simp
  also have "\<dots> = of_int (int K * 2 ^ nat (0 - (binade x - 52)))" by (simp add: inv)
  finally have K: "real K / ulp x = of_int (int K * 2 ^ nat (0 - (binade x - 52)))" .
  have "x / ulp x \<le> real K / ulp x"
    using assms(2) ulp_pos[of x] by (intro divide_right_mono) simp_all
  then have "x / ulp x \<le> of_int (int K * 2 ^ nat (0 - (binade x - 52)))" by (simp only: K)
  then have "round_half_even (x / ulp x) \<le> int K * 2 ^ nat (0 - (binade x - 52))"
    by (rule round_half_even_le)
  then have "(of_int (round_half_even (x / ulp x)) :: real)
               \<le> of_int (int K * 2 ^ nat (0 - (binade x - 52)))"
    by (simp only: of_int_le_iff)
  then have "of_int (round_half_even (x / ulp x)) * ulp x
               \<le> of_int (int K * 2 ^ nat (0 - (binade x - 52))) * ulp x"
    using ulp_pos[of x] by (intro mult_right_mono) simp_all
  moreover have "round64 x = of_int (round_half_even (x / ulp x)) * ulp x"
    using False by (simp add: round64_def)
  moreover have "of_int (int K * 2 ^ nat (0 - (binade x - 52))) * ulp x = real K"
  proof -
    have "(real K / ulp x) * ulp x = real K" using ulp_pos[of x] by simp
    then show ?thesis by (simp only: K)
  qed
  ultimately show ?thesis by linarith
qed

lemma round64_in_binade:
  assumes "2 ^ k \<le> x" and "x < 2 ^ Suc k" and "52 \<le> k"
  shows "round64 x = of_int (round_half_even (x / 2 ^ (k - 52))) * 2 ^ (k - 52)"
proof -
  have "(0::real) < 2 ^ k" by simp
  then have pos: "0 < x" using assms(1) by linarith
  have "(2::real) powr of_int (int k) = 2 ^ k" by (simp add: powr_realpow)
  then have lo: "2 powr of_int (int k) \<le> x" using assms(1) by simp
  have "(2::real) powr (of_int (int k) + 1) = 2 powr real (Suc k)" by (simp add: add.commute)
  also have "\<dots> = 2 ^ Suc k" by (rule powr_realpow) simp
  finally have "x < 2 powr (of_int (int k) + 1)" using assms(2) by simp
  with lo have "\<lfloor>log 2 x\<rfloor> = int k" by (rule floor_log2_eq)
  then have "binade x = int k" using pos by (simp add: binade_def)
  then have "ulp x = 2 powr real (k - 52)" using assms(3) by (simp add: ulp_def of_nat_diff)
  also have "\<dots> = 2 ^ (k - 52)" by (rule powr_realpow) simp
  finally have "ulp x = 2 ^ (k - 52)" .
  then show ?thesis using pos by (simp add: round64_def)
qed

lemma round64_in_unit_binade:
  assumes "1 \<le> x" and "x < 2"
  shows "round64 x = of_int (round_half_even (x * 2 ^ 52)) / 2 ^ 52"
proof -
  have pos: "0 < x" using assms(1) by linarith
  have lo: "2 powr of_int 0 \<le> x" using assms(1) by simp
  have hi: "x < 2 powr (of_int 0 + 1)" using assms(2) by simp
  from lo hi have "\<lfloor>log 2 x\<rfloor> = 0" by (rule floor_log2_eq)
  then have "binade x = 0" using pos by (simp add: binade_def)
  then have "ulp x = 2 powr (- 52)" by (simp add: ulp_def)
  also have "\<dots> = 1 / 2 powr 52" by (simp add: powr_minus_divide)
  also have "(2::real) powr 52 = 2 ^ 52" using powr_realpow[of 2 52] by simp
  finally have u: "ulp x = 1 / 2 ^ 52" .
  have "x \<noteq> 0" using pos by simp
  then have "round64 x = of_int (round_half_even (x / ulp x)) * ulp x"
    by (simp add: round64_def)
  also have "\<dots> = of_int (round_half_even (x / (1 / 2 ^ 52))) * (1 / 2 ^ 52)"
    by (simp only: u)
  also have "\<dots> = of_int (round_half_even (x * 2 ^ 52)) / 2 ^ 52"
    by simp
  finally show ?thesis .
qed

text \<open>Rounding is symmetric, and it does not cross a binary64 value.\<close>

lemma round_half_even_minus: "round_half_even (- q) = - round_half_even q"
proof (cases "q = of_int \<lfloor>q\<rfloor>")
  case True
  then obtain n where q: "q = of_int n" by blast
  have "round_half_even (of_int (- n)) = - n" by (rule round_half_even_int)
  then show ?thesis by (simp add: q round_half_even_int)
next
  case False
  let ?n = "\<lfloor>q\<rfloor>"
  have lo: "of_int ?n < q" using False by (metis of_int_floor_le order_less_le)
  have hi: "q < of_int ?n + 1" by linarith
  have c: "(of_int (- ?n - 1) :: real) = - of_int ?n - 1" by simp
  have fl: "\<lfloor>- q\<rfloor> = - ?n - 1"
  proof (rule floor_unique)
    show "of_int (- ?n - 1) \<le> - q" unfolding c using hi by linarith
    show "- q < of_int (- ?n - 1) + 1" unfolding c using lo by linarith
  qed
  have ev: "even (- ?n - 1) \<longleftrightarrow> odd ?n" by simp
  show ?thesis
    unfolding round_half_even_def Let_def fl using lo hi ev
    by (auto simp: algebra_simps)
qed

lemma binade_minus: "binade (- x) = binade x"
  by (simp add: binade_def)

lemma ulp_minus: "ulp (- x) = ulp x"
  by (simp add: ulp_def binade_minus)

lemma round64_minus: "round64 (- x) = - round64 x"
proof (cases "x = 0")
  case True
  then show ?thesis by (simp add: round64_zero)
next
  case False
  have "round_half_even (- x / ulp x) = - round_half_even (x / ulp x)"
    using round_half_even_minus[of "x / ulp x"] by simp
  then show ?thesis using False by (simp add: round64_def ulp_minus)
qed

lemma round64_le_scaled:
  assumes "0 \<le> x" and "x \<le> real K * 2 ^ j" and "K < 2 ^ 52"
  shows "round64 x \<le> real K * 2 ^ j"
proof (cases "x = 0")
  case True
  then show ?thesis by (simp add: round64_zero)
next
  case False
  have "real K < real (2 ^ 52)" using assms(3) by (simp only: of_nat_less_iff)
  then have "real K * 2 ^ j < real (2 ^ 52) * 2 ^ j" by simp
  also have "\<dots> = 2 ^ (52 + j)" by (simp add: power_add)
  also have "\<dots> = 2 powr real (52 + j)" by (rule powr_realpow[symmetric]) simp
  also have "real (52 + j) = of_int (51 + int j) + 1" by simp
  finally have "\<bar>x\<bar> < 2 powr (of_int (51 + int j) + 1)" using assms(1,2) by simp
  then have b: "binade x \<le> 51 + int j" using False by (intro binade_below) simp_all
  then have d: "0 \<le> int j - (binade x - 52)" by linarith
  have "(2::real) ^ j = 2 powr of_int (int j)" by (simp add: powr_realpow)
  then have "2 ^ j / ulp x = 2 powr of_int (int j) / ulp x" by (simp only:)
  also have "\<dots> = 2 powr (of_int (int j) - (of_int (binade x) - 52))" by (rule pow_over_ulp)
  also have "\<dots> = 2 powr of_int (int j - (binade x - 52))" by simp
  also have "\<dots> = of_int (2 ^ nat (int j - (binade x - 52)))" by (simp only: powr_int_nat[OF d])
  finally have inv: "2 ^ j / ulp x = of_int (2 ^ nat (int j - (binade x - 52)))" .
  have "real K * 2 ^ j / ulp x = real K * (2 ^ j / ulp x)" by simp
  also have "\<dots> = of_int (int K * 2 ^ nat (int j - (binade x - 52)))" by (simp add: inv)
  finally have K: "real K * 2 ^ j / ulp x = of_int (int K * 2 ^ nat (int j - (binade x - 52)))" .
  have "x / ulp x \<le> real K * 2 ^ j / ulp x"
    using assms(2) ulp_pos[of x] by (intro divide_right_mono) simp_all
  then have "x / ulp x \<le> of_int (int K * 2 ^ nat (int j - (binade x - 52)))" by (simp only: K)
  then have "round_half_even (x / ulp x) \<le> int K * 2 ^ nat (int j - (binade x - 52))"
    by (rule round_half_even_le)
  then have "(of_int (round_half_even (x / ulp x)) :: real)
               \<le> of_int (int K * 2 ^ nat (int j - (binade x - 52)))"
    by (simp only: of_int_le_iff)
  then have "of_int (round_half_even (x / ulp x)) * ulp x
               \<le> of_int (int K * 2 ^ nat (int j - (binade x - 52))) * ulp x"
    using ulp_pos[of x] by (intro mult_right_mono) simp_all
  moreover have "round64 x = of_int (round_half_even (x / ulp x)) * ulp x"
    using False by (simp add: round64_def)
  moreover have "of_int (int K * 2 ^ nat (int j - (binade x - 52))) * ulp x = real K * 2 ^ j"
  proof -
    have "(real K * 2 ^ j / ulp x) * ulp x = real K * 2 ^ j" using ulp_pos[of x] by simp
    then show ?thesis by (simp only: K)
  qed
  ultimately show ?thesis by linarith
qed

lemma round64_abs_le_scaled:
  assumes "\<bar>x\<bar> \<le> real K * 2 ^ j" and "K < 2 ^ 52"
  shows "\<bar>round64 x\<bar> \<le> real K * 2 ^ j"
proof (cases "0 \<le> x")
  case True
  then have "round64 x \<le> real K * 2 ^ j" using assms by (intro round64_le_scaled) simp_all
  moreover have "0 \<le> round64 x" using True by (rule round64_nonneg)
  ultimately show ?thesis by simp
next
  case False
  then have "0 \<le> - x" by simp
  moreover have "- x \<le> real K * 2 ^ j" using assms(1) by simp
  ultimately have "round64 (- x) \<le> real K * 2 ^ j" using assms(2) by (intro round64_le_scaled)
  moreover have "round64 x \<le> 0" using False by (intro round64_nonpos) simp
  ultimately show ?thesis by (simp add: round64_minus)
qed

lemma finite_of_bound:
  fixes y b M :: real
  assumes "\<bar>y\<bar> \<le> b" and "b < M"
  shows "\<not> M \<le> y" and "\<not> y \<le> - M"
  using assms by linarith+

lemma binary64_scaled:
  assumes "\<bar>x\<bar> \<le> real K * 2 ^ j" and "K < 2 ^ 52" and "real K * 2 ^ j < 2 ^ 1024"
  shows "binary64 x = Num (round64 x)" and "\<bar>round64 x\<bar> \<le> real K * 2 ^ j"
proof -
  show b: "\<bar>round64 x\<bar> \<le> real K * 2 ^ j" using assms(1,2) by (rule round64_abs_le_scaled)
  note f = finite_of_bound[OF b assms(3)]
  show "binary64 x = Num (round64 x)"
    unfolding binary64_def Let_def using f by (simp only: if_False)
qed

lemma binary64_cases:
  "binary64 x = Num (round64 x) \<or> binary64 x = PosInfinity \<or> binary64 x = NegInfinity"
  by (simp add: binary64_def Let_def)

lemma binary64_not_NaN: "binary64 x \<noteq> NaN"
  by (simp add: binary64_def Let_def)

lemma binary64_nonneg: "0 \<le> x \<Longrightarrow> nonneg (binary64 x)"
  using round64_nonneg[of x] by (simp add: binary64_def Let_def)

lemma binary64_bounded:
  assumes "0 \<le> x" and "x \<le> real K" and "K < 2 ^ 52"
  shows "\<exists>y. binary64 x = Num y \<and> 0 \<le> y \<and> y \<le> real K"
proof -
  have lo: "0 \<le> round64 x" using assms(1) by (rule round64_nonneg)
  have hi: "round64 x \<le> real K" using assms by (rule round64_le_nat)
  have "real K < real (2 ^ 52)" using assms(3) by (simp only: of_nat_less_iff)
  then have "real K < 2 ^ 1024" by simp
  then have "binary64 x = Num (round64 x)" using lo hi by (simp add: binary64_def Let_def)
  then show ?thesis using lo hi by simp
qed

lemma js_abs_nonneg: "nonneg (js_abs a)"
  by (cases a) simp_all

lemma js_add_nonneg: "nonneg a \<Longrightarrow> nonneg b \<Longrightarrow> nonneg (js_add a b)"
  by (cases a; cases b) (simp_all add: binary64_nonneg)

lemma js_mul_nonneg: "nonneg a \<Longrightarrow> nonneg b \<Longrightarrow> nonneg (js_mul a b)"
  by (cases a; cases b) (simp_all add: binary64_nonneg)

lemma js_div_nonneg: "nonneg a \<Longrightarrow> nonneg b \<Longrightarrow> nonneg (js_div a b)"
  by (cases a; cases b) (simp_all add: binary64_nonneg)

lemma gain_nonneg: "nonneg (if js_gt c (Num 0) then c else Num 0)"
  by (cases c) (simp_all add: js_gt_def)

lemma loss_nonneg: "nonneg (if js_lt c (Num 0) then js_abs c else Num 0)"
  by (simp add: js_abs_nonneg)

lemma binary64_finite:
  assumes "0 \<le> x" and "round64 x < 2 ^ 1024"
  shows "binary64 x = Num (round64 x)"
proof -
  have "0 \<le> round64 x" using assms(1) by (rule round64_nonneg)
  then have "\<not> round64 x \<le> - (2 ^ 1024)" by (simp add: not_le order.strict_trans2[of "- (2 ^ 1024)" 0])
  then show ?thesis using assms(2) by (simp add: binary64_def Let_def)
qed

lemma binary64_up_to_1000:
  assumes "0 \<le> x" and "x \<le> 1000"
  shows "binary64 x = Num (round64 x)" and "0 \<le> round64 x" and "round64 x \<le> 1000"
proof -
  have "x \<le> real 1000" using assms(2) by simp
  moreover have "(1000::nat) < 2 ^ 52" by simp
  ultimately have "round64 x \<le> real 1000" using assms(1) by (intro round64_le_nat)
  then show le: "round64 x \<le> 1000" by simp
  show "0 \<le> round64 x" using assms(1) by (rule round64_nonneg)
  have "round64 x < 2 ^ 1024" using le by (rule order.strict_trans1) simp
  with assms(1) show "binary64 x = Num (round64 x)" by (rule binary64_finite)
qed

lemma binary64_1: "binary64 1 = Num 1"
  using binary64_up_to_1000(1)[of 1] round64_int[of 1] by simp

lemma binary64_999: "binary64 999 = Num 999"
  using binary64_up_to_1000(1)[of 999] round64_int[of 999] by simp

lemma round64_5_halves: "round64 (5 / 2) = 5 / 2"
proof (rule round64_exact)
  show "(5::real) / 2 = of_int 5 * 2 powr of_int (- 1)" by (simp add: powr_minus)
  show "\<bar>5::int\<bar> < 2 ^ 53" by simp
  show "- 1074 \<le> (- 1::int)" by simp
qed

lemma binary64_5_halves: "binary64 (5 / 2) = Num (5 / 2)"
  using binary64_up_to_1000(1)[of "5 / 2"] by (simp add: round64_5_halves)


lemma round64_half: "round64 (1 / 2) = 1 / 2"
proof (rule round64_exact)
  show "(1::real) / 2 = of_int 1 * 2 powr of_int (- 1)" by (simp add: powr_minus)
  show "\<bar>1::int\<bar> < 2 ^ 53" by simp
  show "- 1074 \<le> (- 1::int)" by simp
qed

lemma binary64_half: "binary64 (1 / 2) = Num (1 / 2)"
  using binary64_up_to_1000(1)[of "1 / 2"] by (simp add: round64_half)


lemma binary64_int_small:
  assumes "0 \<le> m" and "m \<le> 1000"
  shows "binary64 (of_int m) = Num (of_int m)"
proof -
  have "\<bar>m\<bar> < 2 ^ 53" using assms by simp
  then have "round64 (of_int m) = of_int m" by (rule round64_int)
  moreover have "binary64 (of_int m) = Num (round64 (of_int m))"
    using assms by (intro binary64_up_to_1000(1)) simp_all
  ultimately show ?thesis by simp
qed

lemma binary64_2: "binary64 2 = Num 2"
  using binary64_int_small[of 2] by simp

lemma binary64_minus_1: "binary64 (- 1) = Num (- 1)"
proof -
  have "round64 (of_int (- 1)) = of_int (- 1)" by (rule round64_int) simp
  then show ?thesis by (simp add: binary64_def)
qed

lemma example_huge_pos: "0 < example_huge"
  by (simp add: example_huge_def)

lemma example_huge_not_neg: "\<not> example_huge < 0"
  by (simp add: example_huge_def)

lemma abs_example_huge: "\<bar>example_huge\<bar> = example_huge"
  by (simp add: example_huge_def)

lemma binary64_0: "binary64 0 = Num 0"
  by (simp add: binary64_def round64_zero)

lemma round64_example_huge: "round64 example_huge = example_huge"
  using round64_int_times_pow2[of 1 1023] by (simp add: example_huge_def)

lemma round64_minus_example_huge: "round64 (- example_huge) = - example_huge"
  using round64_int_times_pow2[of "-1" 1023] by (simp add: example_huge_def)

lemma round64_twice_example_huge: "round64 (2 * example_huge) = 2 ^ 1024"
  using round64_int_times_pow2[of 1 1024] by (simp add: example_huge_def)

lemma round64_minus_twice_example_huge: "round64 (- (2 * example_huge)) = - (2 ^ 1024)"
  using round64_int_times_pow2[of "-1" 1024] by (simp add: example_huge_def)

lemma binary64_example_huge: "binary64 example_huge = Num example_huge"
  unfolding binary64_def round64_example_huge by (simp add: example_huge_def)

lemma binary64_minus_example_huge: "binary64 (- example_huge) = Num (- example_huge)"
  unfolding binary64_def round64_minus_example_huge by (simp add: example_huge_def)

lemma binary64_twice_example_huge: "binary64 (2 * example_huge) = PosInfinity"
  unfolding binary64_def round64_twice_example_huge by simp

lemma binary64_minus_twice_example_huge: "binary64 (- (2 * example_huge)) = NegInfinity"
  unfolding binary64_def round64_minus_twice_example_huge by simp

lemmas example_huge_simps = example_huge_pos abs_example_huge example_huge_not_neg binary64_0 binary64_example_huge
  binary64_minus_example_huge binary64_twice_example_huge binary64_minus_twice_example_huge

section \<open>Properties of the RSI calculator\<close>

lemma length_mapi: "length (mapi f xs) = length xs"
  by (simp add: mapi_def)

lemma nth_mapi: "i < length xs \<Longrightarrow> mapi f xs ! i = f (xs ! i) i"
  by (simp add: mapi_def)

lemma slice_tail: "slice 1 (length xs) xs = tl xs"
  by (simp add: slice_def drop_Suc)






lemma wilder_step_nonneg:
  assumes "1 \<le> P" "0 \<le> fst a" "0 \<le> snd a"
  shows "0 \<le> fst (wilder_step P a d) \<and> 0 \<le> snd (wilder_step P a d)"
  using assms by (simp add: wilder_step_def gain_of_def loss_of_def)

lemma foldl_wilder_nonneg:
  assumes "1 \<le> P" "0 \<le> fst a" "0 \<le> snd a"
  shows "0 \<le> fst (foldl (wilder_step P) a ds) \<and> 0 \<le> snd (foldl (wilder_step P) a ds)"
  using assms
proof (induction ds arbitrary: a)
  case Nil
  then show ?case by simp
next
  case (Cons d ds)
  have "0 \<le> fst (wilder_step P a d) \<and> 0 \<le> snd (wilder_step P a d)"
    using Cons.prems by (rule wilder_step_nonneg)
  then show ?case using Cons.IH[of "wilder_step P a d"] Cons.prems(1) by simp
qed

lemma sum_positive_nonneg: "0 \<le> sum_list (filter (\<lambda>d. d > 0) (xs :: real list))"
  by (induction xs) auto

lemma sum_abs_nonneg: "0 \<le> sum_list (map abs (ys :: real list))"
  by (induction ys) auto

lemma rsi_of_averages_range:
  assumes "0 \<le> fst a" "0 \<le> snd a"
  shows "0 \<le> rsi_of_averages a \<and> rsi_of_averages a \<le> 100"
proof (cases "snd a = 0")
  case True
  then show ?thesis by (simp add: rsi_of_averages_def)
next
  case False
  then have "0 \<le> fst a / snd a" using assms by simp
  then have "1 \<le> 1 + fst a / snd a" by simp
  then have "0 \<le> 100 / (1 + fst a / snd a) \<and> 100 / (1 + fst a / snd a) \<le> 100"
    by (simp add: divide_le_eq)
  then show ?thesis using False by (simp add: rsi_of_averages_def)
qed

lemma wilder_RSI_range:
  assumes "1 \<le> P"
  shows "0 \<le> wilder_RSI prices P \<and> wilder_RSI prices P \<le> 100"
proof -
  let ?ds = "deltas prices"
  let ?seed = "(sum_list (filter (\<lambda>d. d > 0) (take P ?ds)) / real P,
                sum_list (map abs (filter (\<lambda>d. d < 0) (take P ?ds))) / real P)"
  have "0 \<le> fst ?seed" "0 \<le> snd ?seed"
    by (simp_all add: sum_positive_nonneg sum_abs_nonneg)
  then have "0 \<le> fst (foldl (wilder_step P) ?seed (drop P ?ds))
           \<and> 0 \<le> snd (foldl (wilder_step P) ?seed (drop P ?ds))"
    using foldl_wilder_nonneg[OF assms] by blast
  then show ?thesis
    unfolding wilder_RSI_def Let_def using rsi_of_averages_range by blast
qed






subsection \<open>Rounding and overflow\<close>

text \<open>
  The running averages are never negative: each is a finite number from 0 on, the
  positive infinity, or NaN.
\<close>

lemma factor_nonneg: "1 \<le> P \<Longrightarrow> nonneg (js_sub (Num (real P)) (Num 1))"
  by (simp add: js_sub_def binary64_nonneg)

lemma smooth64_nonneg:
  assumes "1 \<le> P" and "nonneg g" and "nonneg l"
  shows "nonneg (fst (smooth64 cs P i g l)) \<and> nonneg (snd (smooth64 cs P i g l))"
  using assms
proof (induction cs P i g l rule: smooth64.induct)
  case (1 changes period i avgGain avgLoss)
  show ?case
  proof (cases "i < length changes")
    case True
    let ?c = "changes ! i"
    let ?gain = "if js_gt ?c (Num 0) then ?c else Num 0"
    let ?loss = "if js_lt ?c (Num 0) then js_abs ?c else Num 0"
    let ?f = "js_sub (Num (real period)) (Num 1)"
    let ?g = "js_div (js_add (js_mul avgGain ?f) ?gain) (Num (real period))"
    let ?l = "js_div (js_add (js_mul avgLoss ?f) ?loss) (Num (real period))"
    have f: "nonneg ?f" using "1.prems"(1) by (rule factor_nonneg)
    have p: "nonneg (Num (real period))" by simp
    have g: "nonneg ?g"
      by (intro js_div_nonneg js_add_nonneg js_mul_nonneg "1.prems"(2) f p gain_nonneg)
    have l: "nonneg ?l"
      by (intro js_div_nonneg js_add_nonneg js_mul_nonneg "1.prems"(3) f p loss_nonneg)
    have eq: "smooth64 changes period i avgGain avgLoss = smooth64 changes period (i + 1) ?g ?l"
      using True by (subst smooth64.simps) (simp only: if_True Let_def)
    show ?thesis
      unfolding eq using "1.IH"[OF True refl refl refl "1.prems"(1) g l] .
  next
    case False
    then show ?thesis using "1.prems" by (subst (1 2) smooth64.simps) simp
  qed
qed

lemma smooth64_period_0: "smooth64 cs 0 i NaN NaN = (NaN, NaN)"
proof (induction cs "0::nat" i NaN NaN rule: smooth64.induct)
  case (1 changes i)
  show ?case
  proof (cases "i < length changes")
    case True
    have "smooth64 changes 0 i NaN NaN = smooth64 changes 0 (i + 1) NaN NaN"
      using True by (subst smooth64.simps) (simp add: Let_def)
    then show ?thesis using 1[OF True refl refl refl] by simp
  next
    case False
    then show ?thesis by (subst smooth64.simps) simp
  qed
qed

lemma foldl_gains_nonneg:
  "nonneg a \<Longrightarrow> nonneg (foldl (\<lambda>acc val. js_add acc val) a (filter (\<lambda>c. js_gt c (Num 0)) xs))"
proof (induction xs arbitrary: a)
  case Nil
  then show ?case by simp
next
  case (Cons x xs)
  have "nonneg (js_add a x)" if "js_gt x (Num 0)"
  proof -
    have "nonneg x" using that by (cases x) (simp_all add: js_gt_def)
    with Cons.prems show ?thesis by (rule js_add_nonneg)
  qed
  then show ?case using Cons by simp
qed

lemma foldl_losses_nonneg:
  "nonneg a \<Longrightarrow> nonneg (foldl (\<lambda>acc val. js_add acc (js_abs val)) a ys)"
proof (induction ys arbitrary: a)
  case Nil
  then show ?case by simp
next
  case (Cons y ys)
  have "nonneg (js_add a (js_abs y))" using Cons.prems js_abs_nonneg by (rule js_add_nonneg)
  then show ?case using Cons.IH by simp
qed

lemma rsiAverages_nonneg:
  assumes "1 \<le> P"
  shows "nonneg (fst (rsiAverages prices P)) \<and> nonneg (snd (rsiAverages prices P))"
proof -
  have z: "nonneg (Num 0)" by simp
  have p: "nonneg (Num (real P))" by simp
  show ?thesis
    unfolding rsiAverages_def Let_def reduce_def
    by (intro smooth64_nonneg assms js_div_nonneg foldl_gains_nonneg foldl_losses_nonneg z p)
qed

lemma rsiAverages_period_0: "rsiAverages prices 0 = (NaN, NaN)"
  by (simp add: rsiAverages_def Let_def reduce_def slice_def smooth64_period_0)

lemma rsi_of_denominator:
  assumes "nonneg d" and "d \<noteq> NaN" and "\<forall>y. d = Num y \<longrightarrow> 1 \<le> y"
  shows "\<exists>r. js_sub (Num 100) (js_div (Num 100) d) = Num r \<and> 0 \<le> r \<and> r \<le> 100"
proof (cases d)
  case (Num y)
  then have y: "1 \<le> y" using assms(3) by simp
  have "0 \<le> 100 / y" using y by simp
  moreover have "100 / y \<le> real 100" using y by (simp add: divide_le_eq)
  moreover have "(100::nat) < 2 ^ 52" by simp
  ultimately obtain t where t: "binary64 (100 / y) = Num t" "0 \<le> t" "t \<le> real 100"
    using binary64_bounded by blast
  have "0 \<le> 100 - t" using t by simp
  moreover have "100 - t \<le> real 100" using t by simp
  moreover have "(100::nat) < 2 ^ 52" by simp
  ultimately obtain r where r: "binary64 (100 - t) = Num r" "0 \<le> r" "r \<le> real 100"
    using binary64_bounded by blast
  have "js_sub (Num 100) (js_div (Num 100) d) = Num r"
    using y by (simp add: Num js_sub_def t r)
  then show ?thesis using r by simp
next
  case NaN
  then show ?thesis using assms(2) by simp
next
  case PosInfinity
  have "(0::real) \<le> 100" by simp
  moreover have "(100::real) \<le> real 100" by simp
  moreover have "(100::nat) < 2 ^ 52" by simp
  ultimately obtain r where r: "binary64 100 = Num r" "0 \<le> r" "r \<le> real 100"
    using binary64_bounded by blast
  have "js_sub (Num 100) (js_div (Num 100) d) = Num r"
    using r(1) by (simp add: PosInfinity js_sub_def)
  then show ?thesis using r by simp
next
  case NegInfinity
  then show ?thesis using assms(1) by simp
qed

lemma one_plus_rs:
  assumes "nonneg rs" and "rs \<noteq> NaN"
  shows "nonneg (js_add (Num 1) rs) \<and> js_add (Num 1) rs \<noteq> NaN
       \<and> (\<forall>y. js_add (Num 1) rs = Num y \<longrightarrow> 1 \<le> y)"
proof (cases rs)
  case (Num x)
  then have x: "0 \<le> x" using assms(1) by simp
  then have "1 \<le> round64 (1 + x)" by (intro round64_ge_one) simp
  moreover have "nonneg (binary64 (1 + x))" using x by (intro binary64_nonneg) simp
  ultimately show ?thesis
    using binary64_cases[of "1 + x"] by (auto simp: Num)
next
  case NaN
  then show ?thesis using assms(2) by simp
next
  case PosInfinity
  then show ?thesis by simp
next
  case NegInfinity
  then show ?thesis using assms(1) by simp
qed

lemma rs_NaN_iff:
  assumes "nonneg g" and "nonneg l" and "l \<noteq> Num 0"
  shows "js_div g l = NaN \<longleftrightarrow> averages_give_NaN (g, l)"
  using assms by (cases g; cases l) (simp_all add: averages_give_NaN_def binary64_not_NaN)

lemma calculateRSI_binary64_averages:
  assumes "period < length prices" and "rsiAverages prices period = (g, l)"
  shows "calculateRSI_binary64 prices period =
     (if l = Num 0 then Value (Num 100)
      else Value (js_sub (Num 100) (js_div (Num 100) (js_add (Num 1) (js_div g l)))))"
  using assms by (simp add: calculateRSI_binary64_def Let_def)

lemma calculateRSI_binary64_cases:
  assumes "period < length prices"
  shows "(averages_give_NaN (rsiAverages prices period) \<longrightarrow> calculateRSI_binary64 prices period = Value NaN)
       \<and> (\<not> averages_give_NaN (rsiAverages prices period) \<longrightarrow>
            (\<exists>r. calculateRSI_binary64 prices period = Value (Num r) \<and> 0 \<le> r \<and> r \<le> 100))"
proof -
  obtain g l where gl: "rsiAverages prices period = (g, l)" by (cases "rsiAverages prices period")
  note calc = calculateRSI_binary64_averages[OF assms gl]
  show ?thesis
  proof (cases "period = 0")
    case True
    then have "g = NaN" "l = NaN" using gl by (simp_all add: rsiAverages_period_0)
    then show ?thesis unfolding gl calc by (simp add: averages_give_NaN_def js_sub_def)
  next
    case False
    then have "1 \<le> period" by simp
    then have nn: "nonneg g" "nonneg l" using rsiAverages_nonneg[of period prices] gl by simp_all
    show ?thesis
    proof (cases "l = Num 0")
      case True
      then show ?thesis unfolding gl calc by (simp add: averages_give_NaN_def)
    next
      case l0: False
      have iff: "js_div g l = NaN \<longleftrightarrow> averages_give_NaN (g, l)" using nn l0 by (rule rs_NaN_iff)
      show ?thesis
      proof (cases "js_div g l = NaN")
        case True
        then show ?thesis unfolding gl calc using l0 iff by (simp add: js_sub_def)
      next
        case False
        have "nonneg (js_div g l)" using nn by (rule js_div_nonneg)
        then have d: "nonneg (js_add (Num 1) (js_div g l)) \<and> js_add (Num 1) (js_div g l) \<noteq> NaN
           \<and> (\<forall>y. js_add (Num 1) (js_div g l) = Num y \<longrightarrow> 1 \<le> y)"
          using False by (rule one_plus_rs)
        have "\<exists>r. js_sub (Num 100) (js_div (Num 100) (js_add (Num 1) (js_div g l))) = Num r
                \<and> 0 \<le> r \<and> r \<le> 100"
          using d by (intro rsi_of_denominator) simp_all
        then show ?thesis unfolding gl calc using l0 iff False by simp
      qed
    qed
  qed
qed

text \<open>
  With finite prices of magnitude at most \<open>2^j\<close> the differences are finite and at
  most \<open>2^(j+1)\<close>, and so are the sums of at most \<open>P\<close> of them divided by \<open>P\<close> and
  the smoothed averages, as long as \<open>P * 2^(j+1)\<close> is below \<open>2^1024\<close>.
\<close>

lemma at_most_mono: "at_most B a \<Longrightarrow> B \<le> B' \<Longrightarrow> at_most B' a"
  by (cases a) simp_all

lemma at_most_abs: "at_most B a \<Longrightarrow> at_most B (js_abs a)"
  by (cases a) simp_all

lemma nonneg_at_most_Num:
  assumes "nonneg a" and "at_most B a"
  obtains x where "a = Num x" and "0 \<le> x" and "x \<le> B"
  using assms by (cases a) simp_all

lemma js_add_bounded:
  assumes a: "nonneg a" "at_most (real k * 2 ^ j) a"
      and v: "nonneg v" "at_most (2 ^ j) v"
      and k: "Suc k < 2 ^ 52" and fin: "real (Suc k) * 2 ^ j < 2 ^ 1024"
  shows "nonneg (js_add a v) \<and> at_most (real (Suc k) * 2 ^ j) (js_add a v)"
proof -
  from a obtain x where x: "a = Num x" "0 \<le> x" "x \<le> real k * 2 ^ j"
    by (rule nonneg_at_most_Num)
  from v obtain y where y: "v = Num y" "0 \<le> y" "y \<le> 2 ^ j"
    by (rule nonneg_at_most_Num)
  have s: "real (Suc k) * 2 ^ j = real k * 2 ^ j + 2 ^ j" by (simp add: algebra_simps)
  have "\<bar>x + y\<bar> \<le> real (Suc k) * 2 ^ j" unfolding s using x(2,3) y(2,3) by linarith
  note b = binary64_scaled[OF this k fin]
  have "0 \<le> round64 (x + y)" using x(2) y(2) by (intro round64_nonneg) simp
  then show ?thesis unfolding x(1) y(1) js_add.simps b(1) using b(2) by simp
qed

lemma foldl_js_add_bounded:
  assumes "\<forall>v \<in> set vs. nonneg v \<and> at_most (2 ^ j) v"
      and "nonneg acc" and "at_most (real k * 2 ^ j) acc"
      and "k + length vs < 2 ^ 52" and "real (k + length vs) * 2 ^ j < 2 ^ 1024"
  shows "nonneg (foldl js_add acc vs) \<and> at_most (real (k + length vs) * 2 ^ j) (foldl js_add acc vs)"
  using assms
proof (induction vs arbitrary: acc k)
  case Nil
  then show ?case by simp
next
  case (Cons v vs)
  have v: "nonneg v" "at_most (2 ^ j) v" using Cons.prems(1) by simp_all
  have k: "Suc k < 2 ^ 52" using Cons.prems(4) by simp
  have "real (Suc k) \<le> real (k + length (v # vs))" by simp
  then have "real (Suc k) * 2 ^ j \<le> real (k + length (v # vs)) * 2 ^ j"
    by (intro mult_right_mono) simp_all
  then have fin: "real (Suc k) * 2 ^ j < 2 ^ 1024" using Cons.prems(5) by (rule order.strict_trans1)
  have step: "nonneg (js_add acc v) \<and> at_most (real (Suc k) * 2 ^ j) (js_add acc v)"
    using Cons.prems(2,3) v k fin by (rule js_add_bounded)
  have e: "Suc k + length vs = k + length (v # vs)" by simp
  have "nonneg (foldl js_add (js_add acc v) vs)
      \<and> at_most (real (Suc k + length vs) * 2 ^ j) (foldl js_add (js_add acc v) vs)"
  proof (rule Cons.IH)
    show "\<forall>v \<in> set vs. nonneg v \<and> at_most (2 ^ j) v" using Cons.prems(1) by simp
    show "nonneg (js_add acc v)" using step by (rule conjunct1)
    show "at_most (real (Suc k) * 2 ^ j) (js_add acc v)" using step by (rule conjunct2)
    show "Suc k + length vs < 2 ^ 52" unfolding e by (rule Cons.prems(4))
    show "real (Suc k + length vs) * 2 ^ j < 2 ^ 1024" unfolding e by (rule Cons.prems(5))
  qed
  then show ?case unfolding e by simp
qed

lemma sum_bounded:
  assumes vs: "\<forall>v \<in> set vs. nonneg v \<and> at_most (2 ^ j) v"
      and len: "length vs \<le> P" and P: "P < 2 ^ 52" and fin: "real P * 2 ^ j < 2 ^ 1024"
  shows "nonneg (foldl js_add (Num 0) vs) \<and> at_most (real P * 2 ^ j) (foldl js_add (Num 0) vs)"
proof -
  have m: "real (0 + length vs) * 2 ^ j \<le> real P * 2 ^ j"
    using len by (intro mult_right_mono) simp_all
  have "nonneg (foldl js_add (Num 0) vs)
      \<and> at_most (real (0 + length vs) * 2 ^ j) (foldl js_add (Num 0) vs)"
  proof (rule foldl_js_add_bounded[OF vs])
    show "nonneg (Num 0)" by simp
    show "at_most (real 0 * 2 ^ j) (Num 0)" by simp
    show "0 + length vs < 2 ^ 52" using len P by simp
    show "real (0 + length vs) * 2 ^ j < 2 ^ 1024" using m fin by (rule order.strict_trans1)
  qed
  then show ?thesis using m at_most_mono by blast
qed

lemma average_bounded:
  assumes s: "nonneg s" "at_most (real P * 2 ^ j) s"
      and P: "1 \<le> P" and fin: "real P * 2 ^ j < 2 ^ 1024"
  shows "nonneg (js_div s (Num (real P))) \<and> at_most (2 ^ j) (js_div s (Num (real P)))"
proof -
  from s obtain x where x: "s = Num x" "0 \<le> x" "x \<le> real P * 2 ^ j"
    by (rule nonneg_at_most_Num)
  have Ppos: "0 < real P" using P by simp
  have "x / real P \<le> 2 ^ j" using x(3) Ppos by (simp add: divide_le_eq mult.commute)
  moreover have q: "0 \<le> x / real P" using x(2) by simp
  ultimately have a: "\<bar>x / real P\<bar> \<le> real 1 * 2 ^ j" by simp
  have "real 1 * 2 ^ j \<le> real P * 2 ^ j" using P by (intro mult_right_mono) simp_all
  then have f1: "real 1 * 2 ^ j < 2 ^ 1024" using fin by (rule order.strict_trans1)
  have "(1::nat) < 2 ^ 52" by simp
  note b = binary64_scaled[OF a this f1]
  have "0 \<le> round64 (x / real P)" using q by (rule round64_nonneg)
  moreover have "js_div s (Num (real P)) = binary64 (x / real P)" using Ppos by (simp add: x(1))
  ultimately show ?thesis using b by simp
qed

lemma factor_exact:
  assumes "1 \<le> P" and "P < 2 ^ 52"
  shows "js_sub (Num (real P)) (Num 1) = Num (real (P - 1))"
proof -
  have e: "real P + - 1 = real (P - 1)" using assms(1) by (simp add: of_nat_diff)
  have i: "real (P - 1) = of_int (int (P - 1))" by simp
  have "\<bar>int (P - 1)\<bar> < 2 ^ 53" using assms(2) by simp
  then have r: "round64 (of_int (int (P - 1))) = of_int (int (P - 1))" by (rule round64_int)
  have k: "P - 1 < 2 ^ 52" using assms(2) by simp
  then have "real (P - 1) < real (2 ^ 52)" by (simp only: of_nat_less_iff)
  also have "real (2 ^ 52) = 2 ^ 52" by simp
  also have "(2::real) ^ 52 \<le> 2 ^ 1024" by (rule power_increasing) simp_all
  finally have f: "real (P - 1) * 2 ^ 0 < 2 ^ 1024" by simp
  have a: "\<bar>real (P - 1)\<bar> \<le> real (P - 1) * 2 ^ 0" by simp
  have "binary64 (real (P - 1)) = Num (round64 (real (P - 1)))"
    using a k f by (rule binary64_scaled(1))
  also have "\<dots> = Num (real (P - 1))" using r by (simp only: i[symmetric])
  finally show ?thesis by (simp only: js_sub_def js_neg.simps js_add.simps e)
qed

lemma step_bounded:
  assumes g: "nonneg g" "at_most (2 ^ j) g" and v: "nonneg v" "at_most (2 ^ j) v"
      and P: "1 \<le> P" "P < 2 ^ 52" and fin: "real P * 2 ^ j < 2 ^ 1024"
  shows "nonneg (js_div (js_add (js_mul g (js_sub (Num (real P)) (Num 1))) v) (Num (real P)))
       \<and> at_most (2 ^ j) (js_div (js_add (js_mul g (js_sub (Num (real P)) (Num 1))) v) (Num (real P)))"
proof -
  from g obtain x where x: "g = Num x" "0 \<le> x" "x \<le> 2 ^ j" by (rule nonneg_at_most_Num)
  have S: "Suc (P - 1) = P" using P(1) by simp
  have le: "real (P - 1) * 2 ^ j \<le> real P * 2 ^ j" by (intro mult_right_mono) simp_all
  then have f1: "real (P - 1) * 2 ^ j < 2 ^ 1024" using fin by (rule order.strict_trans1)
  have k1: "P - 1 < 2 ^ 52" using P(2) by simp
  have p0: "0 \<le> x * real (P - 1)" using x(2) by simp
  have "x * real (P - 1) \<le> 2 ^ j * real (P - 1)" using x(3) by (intro mult_right_mono) simp_all
  then have "\<bar>x * real (P - 1)\<bar> \<le> real (P - 1) * 2 ^ j" using p0 by (simp add: mult.commute)
  note b = binary64_scaled[OF this k1 f1]
  have m: "js_mul g (js_sub (Num (real P)) (Num 1)) = Num (round64 (x * real (P - 1)))"
    unfolding factor_exact[OF P] x(1) js_mul.simps by (rule b(1))
  have mn: "nonneg (Num (round64 (x * real (P - 1))))"
    using round64_nonneg[OF p0] by simp
  have mb: "at_most (real (P - 1) * 2 ^ j) (Num (round64 (x * real (P - 1))))"
    using b(2) by simp
  have kk: "Suc (P - 1) < 2 ^ 52" unfolding S by (rule P(2))
  have ff: "real (Suc (P - 1)) * 2 ^ j < 2 ^ 1024" unfolding S by (rule fin)
  have "nonneg (js_add (Num (round64 (x * real (P - 1)))) v)
      \<and> at_most (real (Suc (P - 1)) * 2 ^ j) (js_add (Num (round64 (x * real (P - 1)))) v)"
    using mn mb v kk ff by (rule js_add_bounded)
  then have "nonneg (js_add (Num (round64 (x * real (P - 1)))) v)"
    and "at_most (real P * 2 ^ j) (js_add (Num (round64 (x * real (P - 1)))) v)"
    unfolding S by simp_all
  then show ?thesis unfolding m using P(1) fin by (rule average_bounded)
qed

lemma gain_at_most: "at_most (2 ^ j) c \<Longrightarrow> at_most (2 ^ j) (if js_gt c (Num 0) then c else Num 0)"
  by simp

lemma loss_at_most:
  "at_most (2 ^ j) c \<Longrightarrow> at_most (2 ^ j) (if js_lt c (Num 0) then js_abs c else Num 0)"
  by (simp add: at_most_abs)

lemma smooth64_bounded:
  assumes "1 \<le> P" and "P < 2 ^ 52" and "real P * 2 ^ j < 2 ^ 1024"
      and "\<forall>i < length cs. at_most (2 ^ j) (cs ! i)"
      and "nonneg g" and "at_most (2 ^ j) g" and "nonneg l" and "at_most (2 ^ j) l"
  shows "(nonneg (fst (smooth64 cs P i g l)) \<and> at_most (2 ^ j) (fst (smooth64 cs P i g l)))
       \<and> (nonneg (snd (smooth64 cs P i g l)) \<and> at_most (2 ^ j) (snd (smooth64 cs P i g l)))"
  using assms
proof (induction cs P i g l rule: smooth64.induct)
  case (1 changes period i avgGain avgLoss)
  show ?case
  proof (cases "i < length changes")
    case True
    let ?c = "changes ! i"
    let ?gain = "if js_gt ?c (Num 0) then ?c else Num 0"
    let ?loss = "if js_lt ?c (Num 0) then js_abs ?c else Num 0"
    let ?f = "js_sub (Num (real period)) (Num 1)"
    let ?g = "js_div (js_add (js_mul avgGain ?f) ?gain) (Num (real period))"
    let ?l = "js_div (js_add (js_mul avgLoss ?f) ?loss) (Num (real period))"
    have c: "at_most (2 ^ j) ?c" using "1.prems"(4) True by simp
    have g: "nonneg ?g \<and> at_most (2 ^ j) ?g"
      using "1.prems"(5,6) gain_nonneg gain_at_most[OF c] "1.prems"(1,2,3) by (rule step_bounded)
    have l: "nonneg ?l \<and> at_most (2 ^ j) ?l"
      using "1.prems"(7,8) loss_nonneg loss_at_most[OF c] "1.prems"(1,2,3) by (rule step_bounded)
    have eq: "smooth64 changes period i avgGain avgLoss = smooth64 changes period (i + 1) ?g ?l"
      using True by (subst smooth64.simps) (simp only: if_True Let_def)
    show ?thesis
      unfolding eq
      using "1.IH"[OF True refl refl refl "1.prems"(1,2,3,4) conjunct1[OF g] conjunct2[OF g]
          conjunct1[OF l] conjunct2[OF l]] .
  next
    case False
    then show ?thesis using "1.prems" by (subst (1 2 3 4) smooth64.simps) simp
  qed
qed

lemma js_sub_bounded:
  assumes "at_most (2 ^ j) p" and "at_most (2 ^ j) q" and "(2::real) ^ Suc j < 2 ^ 1024"
  shows "at_most (2 ^ Suc j) (js_sub p q)"
proof -
  obtain x where x: "p = Num x" "\<bar>x\<bar> \<le> 2 ^ j" using assms(1) by (cases p) simp_all
  obtain y where y: "q = Num y" "\<bar>y\<bar> \<le> 2 ^ j" using assms(2) by (cases q) simp_all
  have "\<bar>x + - y\<bar> \<le> real 1 * 2 ^ Suc j" using x(2) y(2) by simp
  moreover have "(1::nat) < 2 ^ 52" by simp
  moreover have "real 1 * 2 ^ Suc j < 2 ^ 1024" using assms(3) by simp
  ultimately have b: "binary64 (x + - y) = Num (round64 (x + - y))"
      "\<bar>round64 (x + - y)\<bar> \<le> real 1 * 2 ^ Suc j"
    by (rule binary64_scaled)+
  have "js_sub p q = Num (round64 (x + - y))"
    by (simp only: js_sub_def x(1) y(1) js_neg.simps js_add.simps b(1))
  then show ?thesis using b(2) by simp
qed

lemma changes64_bounded:
  assumes "\<forall>p \<in> set prices. at_most (2 ^ j) p" and "(2::real) ^ Suc j < 2 ^ 1024"
  shows "\<forall>i < length (changes64 prices). at_most (2 ^ Suc j) (changes64 prices ! i)"
proof (intro allI impI)
  fix i assume "i < length (changes64 prices)"
  then have i: "i < length (tl prices)"
    unfolding changes64_def slice_tail by (simp add: length_mapi)
  then have i1: "Suc i < length prices" by simp
  have "changes64 prices ! i = js_sub (tl prices ! i) (prices ! i)"
    unfolding changes64_def slice_tail using i by (simp add: nth_mapi)
  also have "tl prices ! i = prices ! Suc i" using i1 by (simp add: nth_tl)
  finally have e: "changes64 prices ! i = js_sub (prices ! Suc i) (prices ! i)" .
  have "prices ! Suc i \<in> set prices" using i1 by (rule nth_mem)
  then have a: "at_most (2 ^ j) (prices ! Suc i)" using assms(1) by simp
  have "i < length prices" using i1 by simp
  then have "prices ! i \<in> set prices" by (rule nth_mem)
  then have b: "at_most (2 ^ j) (prices ! i)" using assms(1) by simp
  show "at_most (2 ^ Suc j) (changes64 prices ! i)"
    unfolding e using a b assms(2) by (rule js_sub_bounded)
qed

lemma rsiAverages_bounded:
  assumes P: "1 \<le> P" "P < 2 ^ 52" and fin: "real P * 2 ^ Suc j < 2 ^ 1024"
      and prices: "\<forall>p \<in> set prices. at_most (2 ^ j) p"
  shows "(nonneg (fst (rsiAverages prices P)) \<and> at_most (2 ^ Suc j) (fst (rsiAverages prices P)))
       \<and> (nonneg (snd (rsiAverages prices P)) \<and> at_most (2 ^ Suc j) (snd (rsiAverages prices P)))"
proof -
  let ?cs = "changes64 prices"
  let ?gs = "filter (\<lambda>change. js_gt change (Num 0)) (slice 0 P ?cs)"
  let ?ls = "map js_abs (filter (\<lambda>change. js_lt change (Num 0)) (slice 0 P ?cs))"
  have "real 1 * 2 ^ Suc j \<le> real P * 2 ^ Suc j" using P(1) by (intro mult_right_mono) simp_all
  then have "real 1 * 2 ^ Suc j < 2 ^ 1024" using fin by (rule order.strict_trans1)
  then have f1: "(2::real) ^ Suc j < 2 ^ 1024" by simp
  have cs: "\<forall>i < length ?cs. at_most (2 ^ Suc j) (?cs ! i)"
    using prices f1 by (rule changes64_bounded)
  then have cs': "\<forall>c \<in> set ?cs. at_most (2 ^ Suc j) c" by (simp only: all_set_conv_all_nth)
  have sl: "set (slice 0 P ?cs) \<subseteq> set ?cs" by (simp add: slice_def set_take_subset)
  have lsl: "length (slice 0 P ?cs) \<le> P" by (simp add: slice_def)
  have gs: "\<forall>v \<in> set ?gs. nonneg v \<and> at_most (2 ^ Suc j) v"
  proof
    fix v assume "v \<in> set ?gs"
    then have "v \<in> set ?cs" and gt: "js_gt v (Num 0)" using sl by auto
    then have "at_most (2 ^ Suc j) v" using cs' by simp
    moreover have "nonneg v" using gt by (cases v) (simp_all add: js_gt_def)
    ultimately show "nonneg v \<and> at_most (2 ^ Suc j) v" by simp
  qed
  have ls: "\<forall>v \<in> set ?ls. nonneg v \<and> at_most (2 ^ Suc j) v"
  proof
    fix v assume "v \<in> set ?ls"
    then obtain c where "c \<in> set ?cs" and v: "v = js_abs c" using sl by auto
    then have "at_most (2 ^ Suc j) c" using cs' by simp
    then show "nonneg v \<and> at_most (2 ^ Suc j) v" unfolding v by (simp add: js_abs_nonneg at_most_abs)
  qed
  have "length ?gs \<le> length (slice 0 P ?cs)" by (rule length_filter_le)
  then have lg: "length ?gs \<le> P" using lsl by (rule order.trans)
  have "length (filter (\<lambda>change. js_lt change (Num 0)) (slice 0 P ?cs)) \<le> length (slice 0 P ?cs)"
    by (rule length_filter_le)
  then have "length (filter (\<lambda>change. js_lt change (Num 0)) (slice 0 P ?cs)) \<le> P"
    using lsl by (rule order.trans)
  then have ll: "length ?ls \<le> P" by (simp only: length_map)
  have sg: "nonneg (foldl js_add (Num 0) ?gs) \<and> at_most (real P * 2 ^ Suc j) (foldl js_add (Num 0) ?gs)"
    using gs lg P(2) fin by (rule sum_bounded)
  have sl': "nonneg (foldl js_add (Num 0) ?ls) \<and> at_most (real P * 2 ^ Suc j) (foldl js_add (Num 0) ?ls)"
    using ls ll P(2) fin by (rule sum_bounded)
  have ag: "nonneg (js_div (foldl js_add (Num 0) ?gs) (Num (real P)))
          \<and> at_most (2 ^ Suc j) (js_div (foldl js_add (Num 0) ?gs) (Num (real P)))"
    using conjunct1[OF sg] conjunct2[OF sg] P(1) fin by (rule average_bounded)
  have al: "nonneg (js_div (foldl js_add (Num 0) ?ls) (Num (real P)))
          \<and> at_most (2 ^ Suc j) (js_div (foldl js_add (Num 0) ?ls) (Num (real P)))"
    using conjunct1[OF sl'] conjunct2[OF sl'] P(1) fin by (rule average_bounded)
  have e: "rsiAverages prices P
      = smooth64 ?cs P P (js_div (foldl js_add (Num 0) ?gs) (Num (real P)))
                         (js_div (foldl js_add (Num 0) ?ls) (Num (real P)))"
    by (simp add: rsiAverages_def Let_def reduce_def foldl_map)
  show ?thesis
    unfolding e
    using P fin cs conjunct1[OF ag] conjunct2[OF ag] conjunct1[OF al] conjunct2[OF al]
    by (rule smooth64_bounded)
qed

lemma calculateRSI_binary64_bounded_prices:
  assumes "1 \<le> P" and "P < 2 ^ 23" and "P < length prices"
      and "list_all (at_most (2 ^ 1000)) prices"
  shows "\<exists>r. calculateRSI_binary64 prices P = Value (Num r) \<and> 0 \<le> r \<and> r \<le> 100"
proof -
  have "real P < real (2 ^ 23)" using assms(2) by (simp only: of_nat_less_iff)
  then have "real P * 2 ^ Suc 1000 < real (2 ^ 23) * 2 ^ Suc 1000"
    by (intro mult_strict_right_mono) simp_all
  also have "real (2 ^ 23) * 2 ^ Suc 1000 = 2 ^ (23 + Suc 1000)" by (simp only: of_nat_power of_nat_numeral power_add)
  also have "23 + Suc 1000 = (1024::nat)" by simp
  finally have fin: "real P * 2 ^ Suc 1000 < 2 ^ 1024" .
  have "(2::nat) ^ 23 \<le> 2 ^ 52" by (rule power_increasing) simp_all
  with assms(2) have P52: "P < 2 ^ 52" by (rule order.strict_trans2)
  have prices: "\<forall>p \<in> set prices. at_most (2 ^ 1000) p" using assms(4) by (simp only: list_all_iff)
  note b = rsiAverages_bounded[OF assms(1) P52 fin prices]
  obtain g l where gl: "rsiAverages prices P = (g, l)" by (cases "rsiAverages prices P")
  have "nonneg g" "at_most (2 ^ Suc 1000) g" "nonneg l" "at_most (2 ^ Suc 1000) l"
    using b unfolding gl by simp_all
  then have n: "\<not> averages_give_NaN (g, l)"
    by (cases g; cases l) (simp_all add: averages_give_NaN_def)
  have "\<not> averages_give_NaN (g, l) \<longrightarrow>
      (\<exists>r. calculateRSI_binary64 prices P = Value (Num r) \<and> 0 \<le> r \<and> r \<le> 100)"
    using calculateRSI_binary64_cases[OF assms(3)] unfolding gl by (rule conjunct2)
  then show ?thesis using n by (rule mp)
qed

lemma calculateRSI_binary64_null_iff:
  "calculateRSI_binary64 prices period = Null \<longleftrightarrow> length prices \<le> period"
  by (simp add: calculateRSI_binary64_def Let_def split: prod.split)

lemma overflow_example_period_1:
  "calculateRSI_binary64 [Num example_huge, Num (- example_huge), Num 0] 1 = Value NaN"
  by (simp add: calculateRSI_binary64_def rsiAverages_def changes64_def mapi_def slice_def
      reduce_def smooth64.simps js_sub_def js_gt_def Let_def upt_rec example_huge_simps)

lemma overflow_example_period_14:
  "calculateRSI_binary64
     [Num 0, Num example_huge, Num 0, Num example_huge, Num 0, Num example_huge, Num 0,
      Num example_huge, Num 0, Num example_huge, Num 0, Num example_huge, Num 0,
      Num example_huge, Num 0] 14 = Value NaN"
  by (simp add: calculateRSI_binary64_def rsiAverages_def changes64_def mapi_def slice_def
      reduce_def smooth64.simps js_sub_def js_gt_def Let_def upt_rec example_huge_simps)

lemma example_averages: "rsiAverages [Num 0, Num 2, Num 1] 2 = (Num 1, Num (1 / 2))"
  by (simp add: rsiAverages_def changes64_def mapi_def slice_def reduce_def smooth64.simps
      js_sub_def js_gt_def Let_def upt_rec binary64_0 binary64_1 binary64_2 binary64_minus_1
      binary64_half)

text \<open>
  Claim C5, as stated: for every finite non-constant price sequence with more than \<open>P\<close>
  prices the result lies in the closed interval from 0 to 100. It fails when an
  operation overflows. The prices \<open>2^1023\<close>, \<open>-2^1023\<close>, 0 are finite binary64 values;
  with period 1 the first difference is \<open>-\<infinity>\<close>, the seed average loss is \<open>\<infinity>\<close>, the
  smoothing step multiplies it by \<open>period - 1 = 0\<close>, and the result is NaN. With the
  period 14 of the program, fifteen prices that alternate between 0 and \<open>2^1023\<close> make
  both sums of the seeds overflow, and \<open>\<infinity> / \<infinity>\<close> is NaN.
\<close>

theorem calculateRSI_overflow_NaN:
  "round64 example_huge = example_huge
   \<and> calculateRSI_binary64 [Num example_huge, Num (- example_huge), Num 0] 1 = Value NaN
   \<and> calculateRSI_binary64
       [Num 0, Num example_huge, Num 0, Num example_huge, Num 0, Num example_huge, Num 0,
        Num example_huge, Num 0, Num example_huge, Num 0, Num example_huge, Num 0,
        Num example_huge, Num 0] RSI_PERIOD = Value NaN"
  using round64_example_huge overflow_example_period_1 overflow_example_period_14
  by (simp add: RSI_PERIOD_def)

text \<open>
  Claim C5, amended: for every period and every sequence of more than \<open>P\<close> prices
  (constant or not), the value \<open>calculateRSI\<close> returns is NaN or a number in the closed
  interval from 0 to 100. It is NaN exactly when the final average loss is NaN, or the
  final average gain is NaN and the loss is not 0, or both are infinite. It lies in the
  interval in every other case, and so for every period from 1 to below \<open>2^23\<close> and
  finite prices of magnitude at most \<open>2^1000\<close>.
\<close>

theorem calculateRSI_range_or_NaN:
  assumes "period < length prices"
  shows "(averages_give_NaN (rsiAverages prices period) \<longrightarrow>
            calculateRSI_binary64 prices period = Value NaN)
       \<and> (\<not> averages_give_NaN (rsiAverages prices period) \<longrightarrow>
            (\<exists>r. calculateRSI_binary64 prices period = Value (Num r) \<and> 0 \<le> r \<and> r \<le> 100))
       \<and> (1 \<le> period \<and> period < 2 ^ 23 \<and> list_all (at_most (2 ^ 1000)) prices \<longrightarrow>
            (\<exists>r. calculateRSI_binary64 prices period = Value (Num r) \<and> 0 \<le> r \<and> r \<le> 100))"
proof (intro conjI)
  show "averages_give_NaN (rsiAverages prices period) \<longrightarrow>
            calculateRSI_binary64 prices period = Value NaN"
    using calculateRSI_binary64_cases[OF assms] by (rule conjunct1)
  show "\<not> averages_give_NaN (rsiAverages prices period) \<longrightarrow>
            (\<exists>r. calculateRSI_binary64 prices period = Value (Num r) \<and> 0 \<le> r \<and> r \<le> 100)"
    using calculateRSI_binary64_cases[OF assms] by (rule conjunct2)
  show "1 \<le> period \<and> period < 2 ^ 23 \<and> list_all (at_most (2 ^ 1000)) prices \<longrightarrow>
            (\<exists>r. calculateRSI_binary64 prices period = Value (Num r) \<and> 0 \<le> r \<and> r \<le> 100)"
  proof
    assume "1 \<le> period \<and> period < 2 ^ 23 \<and> list_all (at_most (2 ^ 1000)) prices"
    then have "1 \<le> period" and "period < 2 ^ 23" and "list_all (at_most (2 ^ 1000)) prices"
      by simp_all
    then show "\<exists>r. calculateRSI_binary64 prices period = Value (Num r) \<and> 0 \<le> r \<and> r \<le> 100"
      using assms by (intro calculateRSI_binary64_bounded_prices)
  qed
qed

theorem calculateRSI_range_or_NaN_witness:
  "(\<exists>r. calculateRSI_binary64 [Num 0, Num 2, Num 1] 2 = Value (Num r) \<and> 0 \<le> r \<and> r \<le> 100)
   \<and> calculateRSI_binary64 [Num example_huge, Num (- example_huge), Num 0] 1 = Value NaN
   \<and> (\<exists>r. calculateRSI_binary64 [Num 3, Num 1, Num 2] 1 = Value (Num r) \<and> 0 \<le> r \<and> r \<le> 100)"
proof -
  have a: "\<not> averages_give_NaN (rsiAverages [Num 0, Num 2, Num 1] 2)"
    by (simp add: example_averages averages_give_NaN_def)
  have "rsiAverages [Num example_huge, Num (- example_huge), Num 0] 1 = (Num example_huge, NaN)"
    by (simp add: rsiAverages_def changes64_def mapi_def slice_def reduce_def smooth64.simps
        js_sub_def js_gt_def Let_def upt_rec example_huge_simps binary64_1)
  then have b: "averages_give_NaN (rsiAverages [Num example_huge, Num (- example_huge), Num 0] 1)"
    by (simp add: averages_give_NaN_def)
  have "(1::real) \<le> 2 ^ 1000" by (rule one_le_power) simp
  moreover have "(2::real) ^ 1 \<le> 2 ^ 1000" by (rule power_increasing) simp_all
  moreover have "(3::real) \<le> 2 ^ 2" by simp
  moreover have "(2::real) ^ 2 \<le> 2 ^ 1000" by (rule power_increasing) simp_all
  ultimately have c: "list_all (at_most (2 ^ 1000)) [Num 3, Num 1, Num 2]" by simp
  show ?thesis
    using calculateRSI_range_or_NaN [of 2 "[Num 0, Num 2, Num 1]"]
          calculateRSI_range_or_NaN [of 1 "[Num example_huge, Num (- example_huge), Num 0]"]
          calculateRSI_range_or_NaN [of 1 "[Num 3, Num 1, Num 2]"] a b c
    by simp
qed


section \<open>Properties of the interval data fetcher\<close>

subsection \<open>The map of results\<close>

lemma foldl_upd_map_of:
  "foldl (\<lambda>m (k, v). m(k \<mapsto> v)) m0 es = m0 ++ map_of (rev es)"
proof (induction es arbitrary: m0)
  case Nil
  then show ?case by simp
next
  case (Cons e es)
  obtain k v where e: "e = (k, v)" by (cases e)
  have "foldl (\<lambda>m (k, v). m(k \<mapsto> v)) m0 (e # es)
          = foldl (\<lambda>m (k, v). m(k \<mapsto> v)) (m0(k \<mapsto> v)) es"
    by (simp only: e foldl_Cons prod.case)
  also have "\<dots> = m0(k \<mapsto> v) ++ map_of (rev es)"
    by (rule Cons.IH)
  also have "\<dots> = m0 ++ ([k \<mapsto> v] ++ map_of (rev es))"
    by (rule ext) (auto simp: map_add_def split: option.splits)
  also have "[k \<mapsto> v] ++ map_of (rev es) = map_of (rev (e # es))"
    by (simp add: e)
  finally show ?case .
qed

lemma new_Map_map_of: "new_Map es = map_of (rev es)"
  by (simp add: new_Map_def foldl_upd_map_of)

lemma new_Map_None: "k \<notin> fst ` set es \<Longrightarrow> new_Map es k = None"
  by (simp add: new_Map_map_of map_of_eq_None_iff)

lemma new_Map_Some_unique:
  assumes "k \<in> fst ` set es" and "\<forall>e \<in> set es. fst e = k \<longrightarrow> snd e = v"
  shows "new_Map es k = Some v"
proof -
  from assms(1) have "k \<in> fst ` set (rev es)" by simp
  then obtain w where w: "map_of (rev es) k = Some w"
    by (meson domD domI map_of_eq_None_iff not_None_eq)
  then have "(k, w) \<in> set es" using map_of_SomeD by fastforce
  with assms(2) have "w = v" by fastforce
  with w show ?thesis by (simp add: new_Map_map_of)
qed

lemma length_mergeIntervalData:
  "length (mergeIntervalData results currentMarkets) = length currentMarkets"
  by (simp add: mergeIntervalData_def Let_def)

lemma nth_mergeIntervalData:
  assumes "i < length currentMarkets"
  shows "mergeIntervalData results currentMarkets ! i =
     (currentMarkets ! i)\<lparr>
        changeRate := (case new_Map (map (\<lambda>r. (r_market r, (r_changeRate r, r_rsi r))) results)
                              (market (currentMarkets ! i)) of
                        None \<Rightarrow> Undefined | Some d \<Rightarrow> Defined (fst d)),
        rsi := (case new_Map (map (\<lambda>r. (r_market r, (r_changeRate r, r_rsi r))) results)
                              (market (currentMarkets ! i)) of
                        None \<Rightarrow> Undefined | Some d \<Rightarrow> Defined (snd d))\<rparr>"
  using assms by (simp add: mergeIntervalData_def Let_def)

subsection \<open>Merging the results\<close>

text \<open>
  Claim C2, as stated: a market whose code is not in the result set keeps its previous
  \<open>changeRate\<close> and \<open>rsi\<close>. It fails: the lookup of an absent code is \<open>undefined\<close>,
  the optional chain passes it on and the update writes it into both fields. Here a
  market with change rate 1 and RSI 50 is merged with results for another code.
\<close>

theorem merge_resets_absent_market:
  "map changeRate (mergeIntervalData
      [\<lparr>r_market = ''KRW-ETH'', r_changeRate = Null, r_rsi = Null\<rparr>]
      [\<lparr>market = ''KRW-BTC'', korean_name = [], english_name = ''Bitcoin'',
        acc_trade_price_24h = 5, changeRate = Defined (Value (Num 1)),
        rsi = Defined (Value (Num 50))\<rparr>]) = [Undefined]
   \<and> map rsi (mergeIntervalData
      [\<lparr>r_market = ''KRW-ETH'', r_changeRate = Null, r_rsi = Null\<rparr>]
      [\<lparr>market = ''KRW-BTC'', korean_name = [], english_name = ''Bitcoin'',
        acc_trade_price_24h = 5, changeRate = Defined (Value (Num 1)),
        rsi = Defined (Value (Num 50))\<rparr>]) = [Undefined]"
  by (simp add: mergeIntervalData_def new_Map_def)

text \<open>
  Claim C2, amended: after the results are merged into the ranked list by market code,
  every market whose code is not in the result set has \<open>changeRate\<close> and \<open>rsi\<close> set to
  undefined ("not applicable"); its code, names and volume are unchanged, and the list
  keeps its length.
\<close>

theorem merge_absent_market:
  assumes "i < length currentMarkets"
      and "market (currentMarkets ! i) \<notin> r_market ` set results"
  shows "length (mergeIntervalData results currentMarkets) = length currentMarkets
       \<and> changeRate (mergeIntervalData results currentMarkets ! i) = Undefined
       \<and> rsi (mergeIntervalData results currentMarkets ! i) = Undefined
       \<and> market (mergeIntervalData results currentMarkets ! i) = market (currentMarkets ! i)
       \<and> korean_name (mergeIntervalData results currentMarkets ! i) = korean_name (currentMarkets ! i)
       \<and> english_name (mergeIntervalData results currentMarkets ! i) = english_name (currentMarkets ! i)
       \<and> acc_trade_price_24h (mergeIntervalData results currentMarkets ! i)
           = acc_trade_price_24h (currentMarkets ! i)"
proof -
  have "market (currentMarkets ! i)
          \<notin> fst ` set (map (\<lambda>r. (r_market r, (r_changeRate r, r_rsi r))) results)"
    using assms(2) by (simp add: image_image)
  then have "new_Map (map (\<lambda>r. (r_market r, (r_changeRate r, r_rsi r))) results)
               (market (currentMarkets ! i)) = None"
    by (rule new_Map_None)
  then show ?thesis
    using nth_mergeIntervalData[OF assms(1), of results]
    by (simp add: length_mergeIntervalData)
qed

theorem merge_absent_market_witness:
  "changeRate (mergeIntervalData
      [\<lparr>r_market = ''KRW-ETH'', r_changeRate = Null, r_rsi = Null\<rparr>]
      [\<lparr>market = ''KRW-BTC'', korean_name = [], english_name = ''Bitcoin'',
        acc_trade_price_24h = 5, changeRate = Defined (Value (Num 1)),
        rsi = Defined (Value (Num 50))\<rparr>] ! 0) = Undefined
   \<and> acc_trade_price_24h (mergeIntervalData
      [\<lparr>r_market = ''KRW-ETH'', r_changeRate = Null, r_rsi = Null\<rparr>]
      [\<lparr>market = ''KRW-BTC'', korean_name = [], english_name = ''Bitcoin'',
        acc_trade_price_24h = 5, changeRate = Defined (Value (Num 1)),
        rsi = Defined (Value (Num 50))\<rparr>] ! 0) = 5"
  using merge_absent_market [of 0
      "[\<lparr>market = ''KRW-BTC'', korean_name = [], english_name = ''Bitcoin'',
        acc_trade_price_24h = 5, changeRate = Defined (Value (Num 1)),
        rsi = Defined (Value (Num 50))\<rparr>]"
      "[\<lparr>r_market = ''KRW-ETH'', r_changeRate = Null, r_rsi = Null\<rparr>]"]
  by simp

subsection \<open>The 24-hour baseline\<close>

text \<open>
  Claim C9: when the selected interval is the 24-hour baseline, the effect issues no
  request, sets \<open>changeRate\<close> and \<open>rsi\<close> of every ranked market to undefined and leaves
  every other field of every market, and the rest of the view state, as it was.
\<close>

theorem baseline_short_circuit:
  assumes "selectedInterval s = ''24h''"
  shows "fst (intervalEffect rt up s) = []
       \<and> length (markets (snd (intervalEffect rt up s))) = length (markets s)
       \<and> (\<forall>i < length (markets s).
             changeRate (markets (snd (intervalEffect rt up s)) ! i) = Undefined
           \<and> rsi (markets (snd (intervalEffect rt up s)) ! i) = Undefined
           \<and> market (markets (snd (intervalEffect rt up s)) ! i) = market (markets s ! i)
           \<and> korean_name (markets (snd (intervalEffect rt up s)) ! i) = korean_name (markets s ! i)
           \<and> english_name (markets (snd (intervalEffect rt up s)) ! i) = english_name (markets s ! i)
           \<and> acc_trade_price_24h (markets (snd (intervalEffect rt up s)) ! i)
               = acc_trade_price_24h (markets s ! i))
       \<and> isLoading (snd (intervalEffect rt up s)) = isLoading s
       \<and> isIntervalLoading (snd (intervalEffect rt up s)) = isIntervalLoading s
       \<and> error (snd (intervalEffect rt up s)) = error s
       \<and> selectedInterval (snd (intervalEffect rt up s)) = selectedInterval s"
  using assms by (simp add: intervalEffect_def)

theorem baseline_short_circuit_witness:
  "fst (intervalEffect example_runtime (example_upstream (\<lambda>interval code. NotOk 500))
          (example_state [(example_market ''KRW-BTC'')\<lparr>changeRate := Defined (Value (Num 1)),
                                                        rsi := Defined Null\<rparr>] ''24h'')) = []
   \<and> changeRate (markets (snd (intervalEffect example_runtime (example_upstream (\<lambda>interval code. NotOk 500))
          (example_state [(example_market ''KRW-BTC'')\<lparr>changeRate := Defined (Value (Num 1)),
                                                        rsi := Defined Null\<rparr>] ''24h''))) ! 0)
       = Undefined
   \<and> rsi (markets (snd (intervalEffect example_runtime (example_upstream (\<lambda>interval code. NotOk 500))
          (example_state [(example_market ''KRW-BTC'')\<lparr>changeRate := Defined (Value (Num 1)),
                                                        rsi := Defined Null\<rparr>] ''24h''))) ! 0)
       = Undefined
   \<and> market (markets (snd (intervalEffect example_runtime (example_upstream (\<lambda>interval code. NotOk 500))
          (example_state [(example_market ''KRW-BTC'')\<lparr>changeRate := Defined (Value (Num 1)),
                                                        rsi := Defined Null\<rparr>] ''24h''))) ! 0)
       = ''KRW-BTC''"
  using baseline_short_circuit [of
          "example_state [(example_market ''KRW-BTC'')\<lparr>changeRate := Defined (Value (Num 1)),
                                                        rsi := Defined Null\<rparr>] ''24h''"
          example_runtime "example_upstream (\<lambda>interval code. NotOk 500)"]
  by (simp add: example_state_def example_market_def)

subsection \<open>One request\<close>

lemma on_value_Inr_iff: "on_value r f = Inr z \<longleftrightarrow> (\<exists>v. r = Inr v \<and> f v = Inr z)"
  by (cases r) (simp_all add: on_value_def)

lemma on_value_Inr: "on_value (Inr v) f = f v"
  by (simp add: on_value_def)

lemma on_value_Inl: "on_value (Inl e) f = Inl e"
  by (simp add: on_value_def)

lemma exceeds_undefined: "exceeds rt None n = Inr False"
  by (simp add: exceeds_def on_value_Inr js_gt_def)


lemma exceeds_length_0: "exceeds rt (Some (JNumber (Num (real (length xs))))) 0 = Inr (xs \<noteq> [])"
  by (simp add: exceeds_def on_value_Inr js_gt_def)

lemma candleValues_continues:
  assumes "truthy cd" and "get (Some cd) ''length'' = Inr len" and "exceeds rt len 0 = Inr True"
  shows "candleValues rt cd \<noteq> Inr (Null, Null)"
  using assms
  by (simp add: candleValues_def on_value_Inr on_value_Inr_iff Let_def split: json.split)

lemma candleValues_stops:
  assumes "truthy cd" and "get (Some cd) ''length'' = Inr len" and "exceeds rt len 0 = Inr False"
  shows "candleValues rt cd = Inr (Null, Null)"
  using assms by (simp add: candleValues_def on_value_Inr)

lemma candleValues_throws:
  assumes "truthy cd" and "get (Some cd) ''length'' = Inr len" and "exceeds rt len 0 = Inl e"
  shows "candleValues rt cd = Inl e"
  using assms by (simp add: candleValues_def on_value_Inr on_value_Inl)

lemma candleValues_falsy: "\<not> truthy cd \<Longrightarrow> candleValues rt cd = Inr (Null, Null)"
  by (simp add: candleValues_def)

lemma candleValues_insufficient_iff:
  "candleValues rt payload = Inr (Null, Null) \<longleftrightarrow> insufficient rt payload"
proof (cases payload)
  case JNull
  then show ?thesis by (simp add: candleValues_falsy)
next
  case (JBool b)
  show ?thesis
  proof (cases b)
    case True
    have "candleValues rt (JBool True) = Inr (Null, Null)"
      by (rule candleValues_stops[where len = None]) (simp_all add: exceeds_undefined)
    then show ?thesis using True JBool by simp
  next
    case False
    then show ?thesis using JBool by (simp add: candleValues_falsy)
  qed
next
  case (JNumber n)
  show ?thesis
  proof (cases "truthy (JNumber n)")
    case True
    then have "candleValues rt (JNumber n) = Inr (Null, Null)"
      by (rule candleValues_stops[where len = None]) (simp_all add: exceeds_undefined)
    then show ?thesis using JNumber by simp
  next
    case False
    then show ?thesis using JNumber by (simp add: candleValues_falsy)
  qed
next
  case (JString s)
  show ?thesis
  proof (cases "s = []")
    case True
    then show ?thesis using JString by (simp add: candleValues_falsy)
  next
    case False
    then have "truthy (JString s)" by simp
    moreover have "get (Some (JString s)) ''length'' = Inr (Some (JNumber (Num (real (length s)))))"
      by simp
    moreover have "exceeds rt (Some (JNumber (Num (real (length s))))) 0 = Inr True"
      using False by (simp only: exceeds_length_0) simp
    ultimately have "candleValues rt (JString s) \<noteq> Inr (Null, Null)"
      by (rule candleValues_continues)
    then show ?thesis using False JString by simp
  qed
next
  case (JArray xs)
  have len: "get (Some (JArray xs)) ''length'' = Inr (Some (JNumber (Num (real (length xs)))))"
    by simp
  have t: "truthy (JArray xs)" by simp
  show ?thesis
  proof (cases "xs = []")
    case True
    have "exceeds rt (Some (JNumber (Num (real (length xs))))) 0 = Inr False"
      using True by (simp only: exceeds_length_0) simp
    with t len have "candleValues rt (JArray xs) = Inr (Null, Null)" by (rule candleValues_stops)
    then show ?thesis using True JArray by simp
  next
    case False
    have "exceeds rt (Some (JNumber (Num (real (length xs))))) 0 = Inr True"
      using False by (simp only: exceeds_length_0) simp
    with t len have "candleValues rt (JArray xs) \<noteq> Inr (Null, Null)"
      by (rule candleValues_continues)
    then show ?thesis using False JArray by simp
  qed
next
  case (JObject members)
  have len: "get (Some (JObject members)) ''length'' = Inr (own members ''length'')" by simp
  have t: "truthy (JObject members)" by simp
  show ?thesis
  proof (cases "ToNumber rt (own members ''length'')")
    case (Inl e)
    then have "exceeds rt (own members ''length'') 0 = Inl e"
      by (simp add: exceeds_def on_value_Inl)
    with t len have "candleValues rt (JObject members) = Inl e" by (rule candleValues_throws)
    then show ?thesis using Inl JObject by simp
  next
    case (Inr x)
    then have g: "exceeds rt (own members ''length'') 0 = Inr (js_gt x (Num 0))"
      by (simp add: exceeds_def on_value_Inr)
    show ?thesis
    proof (cases "js_gt x (Num 0)")
      case True
      then have "exceeds rt (own members ''length'') 0 = Inr True" using g by simp
      with t len have "candleValues rt (JObject members) \<noteq> Inr (Null, Null)"
        by (rule candleValues_continues)
      then show ?thesis using True Inr JObject by simp
    next
      case False
      then have "exceeds rt (own members ''length'') 0 = Inr False" using g by simp
      with t len have "candleValues rt (JObject members) = Inr (Null, Null)"
        by (rule candleValues_stops)
      then show ?thesis using False Inr JObject by simp
    qed
  qed
qed






lemma candleTask_market:
  "candleTask rt up iv m = Inr r \<Longrightarrow> r_market r = market m"
  by (auto simp: candleTask_def on_value_def split: response.splits sum.splits prod.splits)

lemma candleTask_cong:
  "market m = market m' \<Longrightarrow> candleTask rt up iv m = candleTask rt up iv m'"
  unfolding candleTask_def by (simp only:)


lemma candleTask_Json:
  "candles up iv (market m) = Json payload \<Longrightarrow>
     candleTask rt up iv m =
       on_value (candleValues rt payload) (\<lambda>(changeRate, rsi).
         Inr \<lparr>r_market = market m, r_changeRate = changeRate, r_rsi = rsi\<rparr>)"
  by (simp add: candleTask_def)

lemma candleTask_null_iff:
  assumes "candles up iv (market m) = Json payload"
  shows "candleTask rt up iv m = Inr \<lparr>r_market = market m, r_changeRate = Null, r_rsi = Null\<rparr>
           \<longleftrightarrow> insufficient rt payload"
proof -
  have "candleTask rt up iv m = Inr \<lparr>r_market = market m, r_changeRate = Null, r_rsi = Null\<rparr>
          \<longleftrightarrow> candleValues rt payload = Inr (Null, Null)"
    unfolding candleTask_Json[OF assms]
    by (cases "candleValues rt payload") (auto simp: on_value_def)
  then show ?thesis by (simp only: candleValues_insufficient_iff)
qed

subsection \<open>Requests that settle, and requests that throw\<close>

lemma promise_all_Inr:
  assumes "\<forall>p \<in> set ps. \<exists>r. p = Inr r"
  shows "promise_all ps = Inr (map projr ps)"
  using assms by (induction ps rule: promise_all.induct) auto


lemma no_request_throws_iff:
  "no_request_throws rt up s
     \<longleftrightarrow> (\<forall>m \<in> set (markets s). \<exists>r. candleTask rt up (selectedInterval s) m = Inr r)"
  unfolding no_request_throws_def list_all_iff
  by (intro ball_cong refl) (simp split: sum.split)

lemma fetchIntervalData_settled:
  assumes no_throw: "no_request_throws rt up s"
      and i: "i < length (markets s)"
      and r: "candleTask rt up (selectedInterval s) (markets s ! i) = Inr r"
  shows "markets (snd (fetchIntervalData rt up s)) ! i
           = (markets s ! i)\<lparr>changeRate := Defined (r_changeRate r), rsi := Defined (r_rsi r)\<rparr>"
    and "length (markets (snd (fetchIntervalData rt up s))) = length (markets s)"
    and "error (snd (fetchIntervalData rt up s)) = error s"
proof -
  let ?iv = "selectedInterval s"
  let ?ps = "map (candleTask rt up ?iv) (markets s)"
  let ?results = "map projr ?ps"
  let ?g = "\<lambda>m. (r_market (projr (candleTask rt up ?iv m)),
                  (r_changeRate (projr (candleTask rt up ?iv m)), r_rsi (projr (candleTask rt up ?iv m))))"
  let ?entries = "map (\<lambda>r. (r_market r, (r_changeRate r, r_rsi r))) ?results"
  have settle: "\<exists>r. candleTask rt up ?iv m = Inr r" if "m \<in> set (markets s)" for m
    using no_throw that unfolding no_request_throws_iff by (rule bspec)
  have "\<exists>r. p = Inr r" if "p \<in> set ?ps" for p
  proof -
    from that obtain m where "m \<in> set (markets s)" and "p = candleTask rt up ?iv m"
      unfolding set_map by (rule imageE)
    then show ?thesis using settle by simp
  qed
  then have "\<forall>p \<in> set ?ps. \<exists>r. p = Inr r" by (rule ballI)
  then have all: "promise_all ?ps = Inr ?results" by (rule promise_all_Inr)
  have state: "snd (fetchIntervalData rt up s)
      = s\<lparr>isIntervalLoading := True, markets := mergeIntervalData ?results (markets s),
           isIntervalLoading := False\<rparr>"
    unfolding fetchIntervalData_def Let_def all by simp
  have entries: "?entries = map ?g (markets s)"
    by (simp only: map_map comp_def)
  have mem: "markets s ! i \<in> set (markets s)" using i by (rule nth_mem)
  have gi: "?g (markets s ! i) = (market (markets s ! i), (r_changeRate r, r_rsi r))"
    using candleTask_market[OF r] by (simp add: r)
  have "?g (markets s ! i) \<in> set ?entries"
    unfolding entries set_map using mem by (rule imageI)
  then have "fst (?g (markets s ! i)) \<in> fst ` set ?entries" by (rule imageI)
  then have dom: "market (markets s ! i) \<in> fst ` set ?entries"
    by (simp only: gi fst_conv)
  have uniq: "\<forall>e \<in> set ?entries. fst e = market (markets s ! i) \<longrightarrow> snd e = (r_changeRate r, r_rsi r)"
  proof (intro ballI impI)
    fix e assume "e \<in> set ?entries" and fe: "fst e = market (markets s ! i)"
    then have "e \<in> ?g ` set (markets s)" by (simp only: entries set_map)
    then obtain m where m: "m \<in> set (markets s)" and e: "e = ?g m" by (rule imageE)
    from settle[OF m] obtain r' where r': "candleTask rt up ?iv m = Inr r'" by (rule exE)
    have "market m = market (markets s ! i)"
      using fe candleTask_market[OF r'] by (simp add: e r')
    then have "candleTask rt up ?iv m = candleTask rt up ?iv (markets s ! i)"
      by (rule candleTask_cong)
    then have "r' = r" using r r' by simp
    then show "snd e = (r_changeRate r, r_rsi r)" by (simp add: e r')
  qed
  have look: "new_Map ?entries (market (markets s ! i)) = Some (r_changeRate r, r_rsi r)"
    using dom uniq by (rule new_Map_Some_unique)
  have merged: "mergeIntervalData ?results (markets s) ! i
     = (markets s ! i)\<lparr>changeRate := Defined (r_changeRate r), rsi := Defined (r_rsi r)\<rparr>"
    unfolding nth_mergeIntervalData[OF i] look by simp
  show "markets (snd (fetchIntervalData rt up s)) ! i
           = (markets s ! i)\<lparr>changeRate := Defined (r_changeRate r), rsi := Defined (r_rsi r)\<rparr>"
    unfolding state using merged by simp
  show "length (markets (snd (fetchIntervalData rt up s))) = length (markets s)"
    unfolding state by (simp add: length_mergeIntervalData)
  show "error (snd (fetchIntervalData rt up s)) = error s"
    unfolding state by simp
qed


text \<open>
  Claim C3, as stated: a malformed or empty candle payload gives that market null
  change rate and RSI and raises no error for the operation. It fails for a body that
  is not JSON: \<open>json()\<close> rejects, \<open>Promise.all\<close> rejects, the \<open>catch\<close> block sets the
  interval error and no market is updated. It fails for the body \<open>[{}]\<close>, an array whose
  element has no prices: the request resolves to the change rate NaN, not null. And it
  fails for the body \<open>[null]\<close>: reading \<open>trade_price\<close> of \<open>null\<close> throws, and the whole
  operation ends in the interval error.
\<close>

theorem malformed_payload_not_insufficient:
  "(\<forall>rt. error (snd (fetchIntervalData rt (example_upstream (\<lambda>interval code. BadJson))
                 (example_state [example_market ''KRW-BTC''] ''minutes/1'')))
           = Some CandleLoadFailed)
   \<and> (\<forall>rt. map changeRate (markets (snd (fetchIntervalData rt
                 (example_upstream (\<lambda>interval code. BadJson))
                 (example_state [example_market ''KRW-BTC''] ''minutes/1''))))
           = [Undefined])
   \<and> (\<forall>rt. candleTask rt (example_upstream (\<lambda>interval code. Json (JArray [JObject []])))
              ''minutes/1'' (example_market ''KRW-BTC'')
           = Inr \<lparr>r_market = ''KRW-BTC'', r_changeRate = Value NaN, r_rsi = Null\<rparr>)
   \<and> (\<forall>rt. candleTask rt (example_upstream (\<lambda>interval code. Json (JArray [JNull])))
              ''minutes/1'' (example_market ''KRW-BTC'')
           = Inl ())
   \<and> (\<forall>rt. error (snd (fetchIntervalData rt
                 (example_upstream (\<lambda>interval code. Json (JArray [JNull])))
                 (example_state [example_market ''KRW-BTC''] ''minutes/1'')))
           = Some CandleLoadFailed)"
  by (simp add: fetchIntervalData_def candleTask_def candleValues_def on_value_def exceeds_def
      js_gt_def js_sub_def own_def RSI_PERIOD_def example_upstream_def example_state_def
      example_market_def)

text \<open>
  Claim C3, amended: for a successful response whose body parses, the request resolves
  to \<open>{changeRate: null, rsi: null}\<close> exactly when the payload carries no candle: it is
  \<open>null\<close>, a boolean, a number, the empty string, the empty array, or an object whose
  \<open>length\<close> is absent or converts, without throwing, to a number that is not greater
  than 0. For such a payload, when no request of the fetch throws, the market gets
  \<open>changeRate = null\<close> and \<open>rsi = null\<close> and no error is set.
\<close>

theorem insufficient_payload:
  assumes "candles up (selectedInterval s) (market (markets s ! i)) = Json payload"
      and "i < length (markets s)"
  shows "(candleTask rt up (selectedInterval s) (markets s ! i)
            = Inr \<lparr>r_market = market (markets s ! i), r_changeRate = Null, r_rsi = Null\<rparr>
          \<longleftrightarrow> insufficient rt payload)
       \<and> (insufficient rt payload \<and> no_request_throws rt up s \<longrightarrow>
            changeRate (markets (snd (fetchIntervalData rt up s)) ! i) = Defined Null
          \<and> rsi (markets (snd (fetchIntervalData rt up s)) ! i) = Defined Null
          \<and> error (snd (fetchIntervalData rt up s)) = error s)"
proof -
  note iff = candleTask_null_iff[OF assms(1), of rt]
  have "changeRate (markets (snd (fetchIntervalData rt up s)) ! i) = Defined Null
          \<and> rsi (markets (snd (fetchIntervalData rt up s)) ! i) = Defined Null
          \<and> error (snd (fetchIntervalData rt up s)) = error s"
    if ins: "insufficient rt payload" and nt: "no_request_throws rt up s"
  proof -
    have task: "candleTask rt up (selectedInterval s) (markets s ! i)
            = Inr \<lparr>r_market = market (markets s ! i), r_changeRate = Null, r_rsi = Null\<rparr>"
      using iff ins by simp
    show ?thesis using fetchIntervalData_settled[OF nt assms(2) task] by simp
  qed
  then show ?thesis using iff by simp
qed

theorem insufficient_payload_witness:
  "changeRate (markets (snd (fetchIntervalData example_runtime
       (example_upstream (\<lambda>interval code. if code = ''KRW-BTC'' then Json (JArray [])
           else Json (JObject [(''error'', JString ''no data'')])))
       (example_state [example_market ''KRW-BTC'', example_market ''KRW-ETH''] ''minutes/1''))) ! 0)
     = Defined Null
   \<and> rsi (markets (snd (fetchIntervalData example_runtime
       (example_upstream (\<lambda>interval code. if code = ''KRW-BTC'' then Json (JArray [])
           else Json (JObject [(''error'', JString ''no data'')])))
       (example_state [example_market ''KRW-BTC'', example_market ''KRW-ETH''] ''minutes/1''))) ! 1)
     = Defined Null
   \<and> error (snd (fetchIntervalData example_runtime
       (example_upstream (\<lambda>interval code. if code = ''KRW-BTC'' then Json (JArray [])
           else Json (JObject [(''error'', JString ''no data'')])))
       (example_state [example_market ''KRW-BTC'', example_market ''KRW-ETH''] ''minutes/1'')))
     = None"
  using insufficient_payload [of
       "example_upstream (\<lambda>interval code. if code = ''KRW-BTC'' then Json (JArray [])
           else Json (JObject [(''error'', JString ''no data'')]))"
       "example_state [example_market ''KRW-BTC'', example_market ''KRW-ETH''] ''minutes/1''" 0
       "JArray []" example_runtime]
     insufficient_payload [of
       "example_upstream (\<lambda>interval code. if code = ''KRW-BTC'' then Json (JArray [])
           else Json (JObject [(''error'', JString ''no data'')]))"
       "example_state [example_market ''KRW-BTC'', example_market ''KRW-ETH''] ''minutes/1''" 1
       "JObject [(''error'', JString ''no data'')]" example_runtime]
  by (simp add: example_upstream_def example_state_def example_market_def no_request_throws_def
      candleTask_def candleValues_def on_value_def exceeds_def js_gt_def own_def)




section \<open>Properties of the market snapshot fetcher\<close>

subsection \<open>The batch loop\<close>

lemma ceil_div_100: "nat \<lceil>real n / 100\<rceil> = (n + 99) div 100"
proof -
  have "\<lceil>real n / 100\<rceil> = \<lceil>of_int (int n) / (of_int 100 :: real)\<rceil>" by simp
  also have "\<dots> = - (- int n div 100)" by (rule ceiling_divide_eq_div)
  also have "\<dots> = int ((n + 99) div 100)" by (simp add: zdiv_int)
  finally show ?thesis by simp
qed

lemma upt_0_Suc_map: "map f [0..<Suc n] = f 0 # map (\<lambda>k. f (Suc k)) [0..<n]"
proof -
  have "[0..<Suc n] = 0 # map Suc [0..<n]"
    by (simp only: map_Suc_upt upt_conv_Cons[of 0 "Suc n"] zero_less_Suc)
  then show ?thesis by (simp add: comp_def)
qed

lemma batch_count_step:
  assumes "i < n"
  shows "(n - i + 99) div 100 = Suc ((n - (i + 100) + 99) div 100)"
proof (cases "n - i < 100")
  case True
  have "100 * 1 \<le> n - i + 99" using assms by simp
  moreover have "n - i + 99 < 100 * Suc 1" using True by simp
  ultimately have "(n - i + 99) div 100 = 1" by (rule div_nat_eqI)
  moreover have "n - (i + 100) = 0" using True by simp
  ultimately show ?thesis by simp
next
  case False
  then have "n - i + 99 = (n - (i + 100) + 99) + 100" by simp
  then have "(n - i + 99) div 100 = ((n - (i + 100) + 99) + 100) div 100" by (rule arg_cong)
  also have "\<dots> = (n - (i + 100) + 99) div 100 + 1" by (rule div_add_self2) simp
  finally show ?thesis by (simp only: Suc_eq_plus1)
qed

lemma batch_count_covers: "(n::nat) \<le> 100 * ((n + 99) div 100)"
proof -
  have "(n + 99) mod 100 < 100" by simp
  moreover have "100 * ((n + 99) div 100) + (n + 99) mod 100 = n + 99"
    by (rule mult_div_mod_eq)
  ultimately show ?thesis by linarith
qed

lemma tickerLoop_issued:
  assumes ok: "\<forall>batch. \<exists>data. tick batch = Json data"
  shows "fst (tickerLoop tick codes i tickerData issued)
           = issued @ map (\<lambda>k. GetTicker (take 100 (drop (i + 100 * k) codes)))
                          [0..<(length codes - i + 99) div 100]"
proof (induction "length codes - i" arbitrary: i tickerData issued rule: less_induct)
  case less
  show ?case
  proof (cases "i < length codes")
    case False
    then have "(length codes - i + 99) div 100 = 0" by simp
    then show ?thesis using False by (subst tickerLoop.simps) simp
  next
    case True
    let ?batch = "slice i (i + BATCH_SIZE) codes"
    obtain data where data: "tick ?batch = Json data" using ok by blast
    have b: "?batch = take 100 (drop i codes)" by (simp add: slice_def BATCH_SIZE_def)
    have "tickerLoop tick codes i tickerData issued
            = tickerLoop tick codes (i + BATCH_SIZE) (tickerData @ data) (issued @ [GetTicker ?batch])"
      using True by (subst tickerLoop.simps) (simp add: Let_def data)
    also have "fst \<dots> = (issued @ [GetTicker ?batch])
            @ map (\<lambda>k. GetTicker (take 100 (drop (i + BATCH_SIZE + 100 * k) codes)))
                  [0..<(length codes - (i + BATCH_SIZE) + 99) div 100]"
      using True by (intro less) (simp add: BATCH_SIZE_def)
    also have "\<dots> = issued @ map (\<lambda>k. GetTicker (take 100 (drop (i + 100 * k) codes)))
                  [0..<Suc ((length codes - (i + 100) + 99) div 100)]"
      unfolding upt_0_Suc_map by (simp add: slice_def BATCH_SIZE_def add.assoc)
    finally show ?thesis by (simp only: batch_count_step[OF True])
  qed
qed

text \<open>Whatever the responses are, the requests issued are an initial part of the batches.\<close>

lemma tickerLoop_issued_prefix:
  "\<exists>n. fst (tickerLoop tick codes i tickerData issued)
           = issued @ take n (map (\<lambda>k. GetTicker (take 100 (drop (i + 100 * k) codes)))
                                 [0..<(length codes - i + 99) div 100])"
proof (induction "length codes - i" arbitrary: i tickerData issued rule: less_induct)
  case less
  show ?case
  proof (cases "i < length codes")
    case False
    then have "fst (tickerLoop tick codes i tickerData issued) = issued"
      by (subst tickerLoop.simps) simp
    then have "fst (tickerLoop tick codes i tickerData issued)
           = issued @ take 0 (map (\<lambda>k. GetTicker (take 100 (drop (i + 100 * k) codes)))
                                 [0..<(length codes - i + 99) div 100])"
      by simp
    then show ?thesis by (rule exI)
  next
    case True
    let ?batch = "slice i (i + BATCH_SIZE) codes"
    let ?rest = "map (\<lambda>k. GetTicker (take 100 (drop (i + 100 + 100 * k) codes)))
                     [0..<(length codes - (i + 100) + 99) div 100]"
    have all: "map (\<lambda>k. GetTicker (take 100 (drop (i + 100 * k) codes)))
                   [0..<(length codes - i + 99) div 100] = GetTicker ?batch # ?rest"
      unfolding batch_count_step[OF True] upt_0_Suc_map
      by (simp add: slice_def BATCH_SIZE_def add.assoc)
    have stop: "\<exists>n. issued @ [GetTicker ?batch] = issued @ take n (GetTicker ?batch # ?rest)"
    proof
      show "issued @ [GetTicker ?batch] = issued @ take 1 (GetTicker ?batch # ?rest)" by simp
    qed
    show ?thesis
    proof (cases "tick ?batch")
      case Rejected
      then have "fst (tickerLoop tick codes i tickerData issued) = issued @ [GetTicker ?batch]"
        using True by (subst tickerLoop.simps) (simp add: Let_def)
      then show ?thesis unfolding all using stop by simp
    next
      case (NotOk status)
      then have "fst (tickerLoop tick codes i tickerData issued) = issued @ [GetTicker ?batch]"
        using True by (subst tickerLoop.simps) (simp add: Let_def)
      then show ?thesis unfolding all using stop by simp
    next
      case BadJson
      then have "fst (tickerLoop tick codes i tickerData issued) = issued @ [GetTicker ?batch]"
        using True by (subst tickerLoop.simps) (simp add: Let_def)
      then show ?thesis unfolding all using stop by simp
    next
      case (Json data)
      have "tickerLoop tick codes i tickerData issued
            = tickerLoop tick codes (i + 100) (tickerData @ data) (issued @ [GetTicker ?batch])"
        using True Json by (subst tickerLoop.simps) (simp add: Let_def BATCH_SIZE_def)
      moreover have "length codes - (i + 100) < length codes - i" using True by simp
      then have "\<exists>n. fst (tickerLoop tick codes (i + 100) (tickerData @ data)
                          (issued @ [GetTicker ?batch]))
           = (issued @ [GetTicker ?batch]) @ take n ?rest"
        by (rule less)
      then obtain n where
        "fst (tickerLoop tick codes (i + 100) (tickerData @ data) (issued @ [GetTicker ?batch]))
           = (issued @ [GetTicker ?batch]) @ take n ?rest"
        by (rule exE)
      ultimately have "fst (tickerLoop tick codes i tickerData issued)
           = issued @ take (Suc n) (GetTicker ?batch # ?rest)"
        by simp
      then show ?thesis unfolding all by (rule exI)
    qed
  qed
qed

lemma tickerLoop_succeeds:
  assumes ok: "\<forall>batch. \<exists>data. tick batch = Json data"
  shows "\<exists>tickerData'. snd (tickerLoop tick codes i tickerData issued) = Inr tickerData'"
proof (induction "length codes - i" arbitrary: i tickerData issued rule: less_induct)
  case less
  show ?case
  proof (cases "i < length codes")
    case False
    then show ?thesis by (subst tickerLoop.simps) simp
  next
    case True
    let ?batch = "slice i (i + BATCH_SIZE) codes"
    obtain data where data: "tick ?batch = Json data" using ok by blast
    have "tickerLoop tick codes i tickerData issued
            = tickerLoop tick codes (i + BATCH_SIZE) (tickerData @ data) (issued @ [GetTicker ?batch])"
      using True by (subst tickerLoop.simps) (simp add: Let_def data)
    moreover have "\<exists>tickerData'. snd (tickerLoop tick codes (i + BATCH_SIZE) (tickerData @ data)
                     (issued @ [GetTicker ?batch])) = Inr tickerData'"
      using True by (intro less) (simp add: BATCH_SIZE_def)
    ultimately show ?thesis by simp
  qed
qed

lemma concat_batches:
  "length xs \<le> 100 * n \<Longrightarrow> concat (map (\<lambda>k. take 100 (drop (100 * k) xs)) [0..<n]) = xs"
proof (induction n arbitrary: xs)
  case 0
  then show ?case by simp
next
  case (Suc n)
  have "length (drop 100 xs) \<le> 100 * n" using Suc.prems by simp
  then have "concat (map (\<lambda>k. take 100 (drop (100 * k) (drop 100 xs))) [0..<n]) = drop 100 xs"
    by (rule Suc.IH)
  then have "concat (map (\<lambda>k. take 100 (drop (100 * Suc k) xs)) [0..<n]) = drop 100 xs"
    by (simp add: add.commute)
  then show ?case unfolding upt_0_Suc_map by simp
qed

lemma length_batches_of: "length (batches_of codes) = nat \<lceil>real (length codes) / 100\<rceil>"
  by (simp add: batches_of_def)

lemma concat_batches_of: "concat (batches_of codes) = codes"
  unfolding batches_of_def ceil_div_100 by (rule concat_batches) (rule batch_count_covers)

lemma batches_of_bounded: "b \<in> set (batches_of codes) \<Longrightarrow> length b \<le> 100"
  by (auto simp: batches_of_def)

lemma batches_of_250:
  assumes "length codes = 250"
  shows "map length (batches_of codes) = [100, 100, 50]"
proof -
  have "[0..<3] = [0, 1, 2]" by (simp add: upt_rec)
  then show ?thesis using assms by (simp add: batches_of_def ceil_div_100)
qed

lemma fetchTopMarkets_issued:
  assumes "marketAll up = Json allMarkets"
      and "\<forall>batch. \<exists>data. ticker up batch = Json data"
  shows "fst (fetchTopMarkets up s)
           = GetMarketAll # map GetTicker (batches_of
               (map market (filter (\<lambda>m. startsWith (market m) ''KRW-'') allMarkets)))"
proof -
  let ?codes = "map market (filter (\<lambda>m. startsWith (market m) ''KRW-'') allMarkets)"
  obtain issued r where t: "tickerLoop (ticker up) ?codes 0 [] [GetMarketAll] = (issued, r)"
    by (cases "tickerLoop (ticker up) ?codes 0 [] [GetMarketAll]")
  have "issued = fst (tickerLoop (ticker up) ?codes 0 [] [GetMarketAll])" by (simp add: t)
  then have issued: "issued = GetMarketAll # map GetTicker (batches_of ?codes)"
    unfolding tickerLoop_issued[OF assms(2)] by (simp add: batches_of_def ceil_div_100 comp_def)
  have "fst (fetchTopMarkets up s) = issued"
    unfolding fetchTopMarkets_def Let_def assms(1) response.case t by (cases r) simp_all
  then show ?thesis by (simp only: issued)
qed

lemma fst_fetchTopMarkets:
  assumes "marketAll up = Json allMarkets"
      and "codes = map market (filter (\<lambda>m. startsWith (market m) ''KRW-'') allMarkets)"
  shows "fst (fetchTopMarkets up s) = fst (tickerLoop (ticker up) codes 0 [] [GetMarketAll])"
  unfolding assms(2)
  by (simp add: fetchTopMarkets_def Let_def assms(1) split: prod.split sum.split)

lemma fetchTopMarkets_issued_prefix:
  assumes "marketAll up = Json allMarkets"
      and "codes = map market (filter (\<lambda>m. startsWith (market m) ''KRW-'') allMarkets)"
  shows "\<exists>n. fst (fetchTopMarkets up s) = GetMarketAll # map GetTicker (take n (batches_of codes))"
proof -
  have bs: "map (\<lambda>k. GetTicker (take 100 (drop (0 + 100 * k) codes)))
                [0..<(length codes - 0 + 99) div 100] = map GetTicker (batches_of codes)"
    by (simp add: batches_of_def ceil_div_100 comp_def)
  from tickerLoop_issued_prefix[of "ticker up" codes 0 "[]" "[GetMarketAll]"]
  obtain n where "fst (tickerLoop (ticker up) codes 0 [] [GetMarketAll])
      = [GetMarketAll] @ take n (map GetTicker (batches_of codes))"
    unfolding bs by (rule exE)
  then have "fst (fetchTopMarkets up s) = GetMarketAll # map GetTicker (take n (batches_of codes))"
    unfolding fst_fetchTopMarkets[OF assms] by (simp only: take_map append_Cons append_Nil)
  then show ?thesis by (rule exI)
qed

text \<open>
  Claim C7: the snapshot fetcher issues its ticker requests one after the other, after
  the catalog request: the requests issued are always an initial part of the batches of
  the KRW market codes, and all of them when every ticker request succeeds. There are
  \<open>ceil(K / 100)\<close> batches for \<open>K\<close> codes, each with at most 100 codes, which together
  are the codes in input order; for 250 codes the batches have 100, 100 and 50 codes.
\<close>

theorem ticker_requests_batched:
  assumes "marketAll up = Json allMarkets"
      and "codes = map market (filter (\<lambda>m. startsWith (market m) ''KRW-'') allMarkets)"
  shows "(\<exists>n. fst (fetchTopMarkets up s) = GetMarketAll # map GetTicker (take n (batches_of codes)))
       \<and> ((\<forall>batch. \<exists>data. ticker up batch = Json data) \<longrightarrow>
            fst (fetchTopMarkets up s) = GetMarketAll # map GetTicker (batches_of codes))
       \<and> length (batches_of codes) = nat \<lceil>real (length codes) / 100\<rceil>
       \<and> (\<forall>b \<in> set (batches_of codes). length b \<le> 100)
       \<and> concat (batches_of codes) = codes
       \<and> (length codes = 250 \<longrightarrow> map length (batches_of codes) = [100, 100, 50])"
proof -
  have "fst (fetchTopMarkets up s) = GetMarketAll # map GetTicker (batches_of codes)"
    if "\<forall>batch. \<exists>data. ticker up batch = Json data"
    using fetchTopMarkets_issued[OF assms(1) that, of s] by (simp only: assms(2))
  then show ?thesis
    using fetchTopMarkets_issued_prefix[OF assms, of s]
      length_batches_of[of codes] concat_batches_of[of codes] batches_of_bounded[of _ codes]
      batches_of_250[of codes]
    by simp
qed

theorem ticker_requests_batched_witness:
  "map (\<lambda>r. case r of GetTicker batch \<Rightarrow> length batch | _ \<Rightarrow> 0)
     (fst (fetchTopMarkets
        \<lparr>marketAll = Json (replicate 250 \<lparr>market = ''KRW-BTC'', korean_name = [], english_name = []\<rparr>),
         ticker = (\<lambda>batch. Json []), candles = (\<lambda>interval code. Rejected)\<rparr>
        (example_state [] ''24h'')))
   = [0, 100, 100, 50]"
proof -
  let ?up = "\<lparr>marketAll = Json (replicate 250 \<lparr>market = ''KRW-BTC'', korean_name = [], english_name = []\<rparr>),
         ticker = (\<lambda>batch. Json []), candles = (\<lambda>interval code. Rejected)\<rparr>"
  have h1: "marketAll ?up
      = Json (replicate 250 \<lparr>market = ''KRW-BTC'', korean_name = [], english_name = []\<rparr>)"
    by simp
  have h2: "\<forall>batch. \<exists>data. ticker ?up batch = Json data" by simp
  have h3: "replicate 250 ''KRW-BTC''
      = map market (filter (\<lambda>m. startsWith (market m) ''KRW-'')
          (replicate 250 \<lparr>market = ''KRW-BTC'', korean_name = [], english_name = []\<rparr>))"
    by (simp add: startsWith_def)
  have "fst (fetchTopMarkets ?up (example_state [] ''24h''))
          = GetMarketAll # map GetTicker (batches_of (replicate 250 ''KRW-BTC''))
      \<and> map length (batches_of (replicate 250 ''KRW-BTC'')) = [100, 100, 50]"
    using ticker_requests_batched [OF h1 h3, of "example_state [] ''24h''"] h2 by simp
  moreover have "map (\<lambda>r. case r of GetTicker batch \<Rightarrow> length batch | _ \<Rightarrow> 0)
                  (map GetTicker bs) = map length bs" for bs
    by (induction bs) simp_all
  ultimately show ?thesis by (simp del: map_map)
qed

subsection \<open>Ranking\<close>

lemma set_insert_cmp: "set (insert_cmp cmp x xs) = insert x (set xs)"
  by (induction xs) auto

lemma length_insert_cmp: "length (insert_cmp cmp x xs) = Suc (length xs)"
  by (induction xs) auto

lemma set_sort_cmp: "set (sort_cmp cmp xs) = set xs"
  unfolding sort_cmp_def by (induction xs) (simp_all add: set_insert_cmp)

lemma length_sort_cmp: "length (sort_cmp cmp xs) = length xs"
  unfolding sort_cmp_def by (induction xs) (simp_all add: length_insert_cmp)

lemma distinct_map_insert_cmp:
  "distinct (map f (insert_cmp cmp x xs)) \<longleftrightarrow> f x \<notin> f ` set xs \<and> distinct (map f xs)"
  by (induction xs) (auto simp: set_insert_cmp)

lemma distinct_map_sort_cmp:
  "distinct (map f (sort_cmp cmp xs)) \<longleftrightarrow> distinct (map f xs)"
  unfolding sort_cmp_def
proof (induction xs)
  case Nil
  then show ?case by simp
next
  case (Cons x xs)
  have "set (foldr (insert_cmp cmp) xs []) = set xs"
    using set_sort_cmp[of cmp xs] by (simp add: sort_cmp_def)
  then show ?case using Cons by (simp add: distinct_map_insert_cmp)
qed

text \<open>Descending by a key: the comparator \<open>key b - key a\<close>.\<close>

lemma sorted_insert_desc:
  fixes key :: "'a \<Rightarrow> real"
  assumes "sorted_wrt (\<lambda>a b. key b \<le> key a) xs"
  shows "sorted_wrt (\<lambda>a b. key b \<le> key a) (insert_cmp (\<lambda>a b. key b - key a) x xs)"
  using assms
proof (induction xs)
  case Nil
  then show ?case by simp
next
  case (Cons y ys)
  show ?case
  proof (cases "key y - key x \<le> 0")
    case True
    then have "\<forall>z \<in> set ys. key z \<le> key x" using Cons.prems by auto
    then show ?thesis using True Cons.prems by auto
  next
    case False
    then show ?thesis using Cons by (auto simp: set_insert_cmp)
  qed
qed

lemma sorted_sort_desc:
  fixes key :: "'a \<Rightarrow> real"
  shows "sorted_wrt (\<lambda>a b. key b \<le> key a) (sort_cmp (\<lambda>a b. key b - key a) xs)"
  unfolding sort_cmp_def by (induction xs) (simp_all add: sorted_insert_desc)

lemma strict_of_distinct:
  fixes key :: "'a \<Rightarrow> real"
  assumes "sorted_wrt (\<lambda>a b. key b \<le> key a) xs" and "distinct (map key xs)"
  shows "sorted_wrt (\<lambda>a b. key b < key a) xs"
  using assms
proof (induction xs)
  case Nil
  then show ?case by simp
next
  case (Cons x xs)
  have "key z < key x" if "z \<in> set xs" for z
  proof -
    have "key z \<le> key x" using Cons.prems(1) that by simp
    moreover have "key x \<notin> key ` set xs" using Cons.prems(2) by simp
    then have "key z \<noteq> key x" using that by (metis imageI)
    ultimately show ?thesis by simp
  qed
  then show ?case using Cons by simp
qed

lemma top15Markets_take:
  "top15Markets combinedData
     = take 15 (sort_cmp (\<lambda>a b. acc_trade_price_24h b - acc_trade_price_24h a) combinedData)"
  by (simp add: top15Markets_def slice_def)

text \<open>When every request succeeds, the list the fetcher stores is the ranking of the merged records.\<close>

lemma fetchTopMarkets_markets:
  assumes "marketAll up = Json allMarkets"
      and "\<forall>batch. \<exists>data. ticker up batch = Json data"
      and "krwMarkets = filter (\<lambda>m. startsWith (market m) ''KRW-'') allMarkets"
  shows "\<exists>tickerData. markets (snd (fetchTopMarkets up s))
           = top15Markets (combine krwMarkets tickerData)"
proof -
  obtain issued r where t: "tickerLoop (ticker up) (map market krwMarkets) 0 [] [GetMarketAll] = (issued, r)"
    by (cases "tickerLoop (ticker up) (map market krwMarkets) 0 [] [GetMarketAll]")
  have "\<exists>tickerData. snd (tickerLoop (ticker up) (map market krwMarkets) 0 [] [GetMarketAll]) = Inr tickerData"
    using assms(2) by (rule tickerLoop_succeeds)
  then obtain tickerData where r: "r = Inr tickerData" unfolding t snd_conv by (rule exE)
  have "markets (snd (fetchTopMarkets up s)) = top15Markets (combine krwMarkets tickerData)"
    unfolding fetchTopMarkets_def Let_def assms(1) response.case assms(3)[symmetric] t r by simp
  then show ?thesis by (rule exI)
qed

text \<open>
  Claim C6: for merged records with distinct volumes the ranked list has
  \<open>min(N, 15)\<close> entries, all of them records of the input, in strictly descending
  order of volume, and every record of the input that is left out has a smaller volume
  than every entry.
\<close>

theorem top15Markets_ranked:
  assumes "distinct (map acc_trade_price_24h combinedData)"
  shows "length (top15Markets combinedData) = min (length combinedData) 15
       \<and> set (top15Markets combinedData) \<subseteq> set combinedData
       \<and> sorted_wrt (\<lambda>a b. acc_trade_price_24h b < acc_trade_price_24h a) (top15Markets combinedData)
       \<and> (\<forall>a \<in> set (top15Markets combinedData).
            \<forall>b \<in> set combinedData - set (top15Markets combinedData).
              acc_trade_price_24h b < acc_trade_price_24h a)"
proof -
  let ?key = "acc_trade_price_24h :: MarketWithData \<Rightarrow> real"
  let ?sorted = "sort_cmp (\<lambda>a b. ?key b - ?key a) combinedData"
  have top: "top15Markets combinedData = take 15 ?sorted" by (rule top15Markets_take)
  have "sorted_wrt (\<lambda>a b. ?key b \<le> ?key a) ?sorted" by (rule sorted_sort_desc)
  moreover have "distinct (map ?key ?sorted)" using assms by (simp add: distinct_map_sort_cmp)
  ultimately have strict: "sorted_wrt (\<lambda>a b. ?key b < ?key a) ?sorted" by (rule strict_of_distinct)
  then have "sorted_wrt (\<lambda>a b. ?key b < ?key a) (take 15 ?sorted @ drop 15 ?sorted)" by simp
  then have split: "sorted_wrt (\<lambda>a b. ?key b < ?key a) (take 15 ?sorted)"
      "\<forall>a \<in> set (take 15 ?sorted). \<forall>b \<in> set (drop 15 ?sorted). ?key b < ?key a"
    unfolding sorted_wrt_append by blast+
  have "set (take 15 ?sorted) \<union> set (drop 15 ?sorted) = set combinedData"
    using set_sort_cmp[of _ combinedData] by (metis append_take_drop_id set_append)
  then have rest: "set combinedData - set (take 15 ?sorted) \<subseteq> set (drop 15 ?sorted)" by blast
  have sub: "set (take 15 ?sorted) \<subseteq> set combinedData"
    using set_take_subset[of 15 ?sorted] by (simp add: set_sort_cmp)
  have len: "length (take 15 ?sorted) = min (length combinedData) 15"
    by (simp add: length_sort_cmp)
  show ?thesis unfolding top using len sub split rest by blast
qed

theorem top15Markets_ranked_witness:
  "length (top15Markets
      [(example_market ''KRW-ADA'')\<lparr>acc_trade_price_24h := 5\<rparr>,
       (example_market ''KRW-BTC'')\<lparr>acc_trade_price_24h := 9\<rparr>,
       (example_market ''KRW-ETH'')\<lparr>acc_trade_price_24h := 7\<rparr>]) = 3
   \<and> sorted_wrt (\<lambda>a b. acc_trade_price_24h b < acc_trade_price_24h a) (top15Markets
      [(example_market ''KRW-ADA'')\<lparr>acc_trade_price_24h := 5\<rparr>,
       (example_market ''KRW-BTC'')\<lparr>acc_trade_price_24h := 9\<rparr>,
       (example_market ''KRW-ETH'')\<lparr>acc_trade_price_24h := 7\<rparr>])"
  using top15Markets_ranked [of
      "[(example_market ''KRW-ADA'')\<lparr>acc_trade_price_24h := 5\<rparr>,
        (example_market ''KRW-BTC'')\<lparr>acc_trade_price_24h := 9\<rparr>,
        (example_market ''KRW-ETH'')\<lparr>acc_trade_price_24h := 7\<rparr>]"]
  by (simp add: example_market_def)

section \<open>Properties of the volume formatter\<close>

lemma digit_char_0: "digit_char 0 = CHR ''0''"
  by (simp add: digit_char_def)

lemma digits_small: "n < 10 \<Longrightarrow> digits n = [digit_char n]"
  by (subst digits.simps) simp

lemma digits_step: "10 \<le> n \<Longrightarrow> digits n = digits (n div 10) @ [digit_char (n mod 10)]"
  by (subst digits.simps) simp

lemma length_digits_pos: "0 < length (digits n)"
  by (subst digits.simps) simp

lemma digits_two: 
  assumes "10 \<le> n" "n < 100"
  shows "digits n = [digit_char (n div 10), digit_char (n mod 10)]"
proof -
  have "n div 10 < 10" using assms(2) by simp
  then show ?thesis using assms(1) by (simp add: digits_step digits_small)
qed

lemma digits_hundreds:
  assumes "100 \<le> n"
  shows "digits n = digits (n div 100) @ [digit_char (n div 10 mod 10), digit_char (n mod 10)]"
proof -
  have "10 \<le> n" using assms by simp
  moreover have "10 \<le> n div 10" using assms by simp
  moreover have "n div 10 div 10 = n div 100" by (simp add: div_mult2_eq)
  ultimately show ?thesis by (simp add: digits_step)
qed

lemma point_two:
  "(let m = digits n; k = length m;
        m = (if k \<le> 2 then replicate (2 + 1 - k) (CHR ''0'') @ m else m);
        k = (if k \<le> 2 then 2 + 1 else k)
    in take (k - 2) m @ ''.'' @ drop (k - 2) m)
   = digits (n div 100) @ ''.'' @ [digit_char (n div 10 mod 10), digit_char (n mod 10)]"
proof -
  consider "n < 10" | "10 \<le> n" "n < 100" | "100 \<le> n" by linarith
  then show ?thesis
  proof cases
    case 1
    then show ?thesis by (simp add: digits_small digit_char_0 Let_def)
  next
    case 2
    then have "n div 10 mod 10 = n div 10" by simp
    moreover have "n div 100 = 0" using 2 by simp
    ultimately show ?thesis using 2
      by (simp add: digits_two digits_small digit_char_0 Let_def)
  next
    case 3
    have "0 < length (digits (n div 100))" by (rule length_digits_pos)
    then show ?thesis using 3 by (simp add: digits_hundreds Let_def)
  qed
qed

lemma toFixed_two_decimals:
  assumes "0 \<le> x" "x < 10 ^ 21"
  shows "toFixed shortest (Num x) 2 = two_decimals x"
proof -
  have "toFixed shortest (Num x) 2 =
     (let m = digits (nat \<lfloor>x * 100 + 1 / 2\<rfloor>); k = length m;
        m = (if k \<le> 2 then replicate (2 + 1 - k) (CHR ''0'') @ m else m);
        k = (if k \<le> 2 then 2 + 1 else k)
    in take (k - 2) m @ ''.'' @ drop (k - 2) m)"
    using assms by (simp add: Let_def)
  then show ?thesis unfolding point_two by (simp add: two_decimals_def Let_def)
qed

lemma toFixed_exponential:
  assumes "10 ^ 21 \<le> x"
  shows "toFixed shortest (Num x) f = (case shortest x of (d, n) \<Rightarrow> exponential d n)"
proof -
  have "\<not> x < 0" using assms by (simp add: not_less order_trans[of 0 "10 ^ 21" x])
  moreover have "\<bar>x\<bar> = x" using calculation by simp
  ultimately show ?thesis using assms by (simp add: Let_def)
qed

lemma digit_char_digit: "d < 10 \<Longrightarrow> digit_char d \<in> set ''0123456789''"
  unfolding digit_char_def by (rule nth_mem) simp

lemma set_digits: "set (digits n) \<subseteq> set ''0123456789''"
proof (induction n rule: digits.induct)
  case (1 n)
  show ?case
  proof (cases "n < 10")
    case True
    then show ?thesis using digit_char_digit[of n] by (simp add: digits_small)
  next
    case False
    have "digit_char (n mod 10) \<in> set ''0123456789''" by (rule digit_char_digit) simp
    then show ?thesis using False 1[OF False] by (simp add: digits_step)
  qed
qed

lemma plus_not_in_digits: "CHR ''+'' \<notin> set (digits n)"
  using set_digits[of n] by auto

lemma plus_not_digit: "CHR ''+'' \<noteq> digit_char (n mod 10)"
proof -
  have "digit_char (n mod 10) \<in> set ''0123456789''" by (rule digit_char_digit) simp
  then show ?thesis by auto
qed

lemma plus_not_in_two_decimals: "CHR ''+'' \<notin> set (two_decimals x)"
  by (simp add: two_decimals_def Let_def plus_not_in_digits plus_not_digit)

lemma plus_in_exponential: "CHR ''+'' \<in> set (exponential d n)"
  by (simp add: exponential_def Let_def)

lemma exponential_not_two_decimals:
  "(case p of (d, n) \<Rightarrow> exponential d n) @ hangul_jo \<noteq> two_decimals x @ hangul_jo"
proof -
  obtain d n where p: "p = (d, n)" by (cases p)
  have "CHR ''+'' \<in> set (exponential d n)" by (rule plus_in_exponential)
  moreover have "CHR ''+'' \<notin> set (two_decimals x)" by (rule plus_not_in_two_decimals)
  ultimately have "exponential d n \<noteq> two_decimals x" by metis
  then show ?thesis by (simp add: p)
qed

lemma formatVolume_jo:
  assumes "1000000000000 \<le> v" and "round64 (v / 1000000000000) < 10 ^ 21"
  shows "formatVolume shortest toLocaleString (Num v)
           = two_decimals (round64 (v / 1000000000000)) @ hangul_jo"
proof -
  let ?q = "v / 1000000000000"
  have q: "0 \<le> ?q" using assms(1) by simp
  have "round64 ?q < 2 ^ 1024" using assms(2) by (rule order.strict_trans) simp
  with q have b: "binary64 ?q = Num (round64 ?q)" by (rule binary64_finite)
  have "0 \<le> round64 ?q" using q by (rule round64_nonneg)
  then have "toFixed shortest (Num (round64 ?q)) 2 = two_decimals (round64 ?q)"
    using assms(2) by (rule toFixed_two_decimals)
  then show ?thesis using assms(1) by (simp add: formatVolume_def js_ge_def b)
qed

lemma formatVolume_eok:
  assumes "1000000000 \<le> v" and "v < 1000000000000"
  shows "formatVolume shortest toLocaleString (Num v)
           = two_decimals (round64 (v / 1000000000)) @ hangul_eok"
proof -
  let ?q = "v / 1000000000"
  have "0 \<le> ?q" "?q \<le> 1000" using assms by simp_all
  note b = binary64_up_to_1000[OF this]
  have "round64 ?q < 10 ^ 21" using b(3) by (rule order.strict_trans1) simp
  with b(2) have "toFixed shortest (Num (round64 ?q)) 2 = two_decimals (round64 ?q)"
    by (rule toFixed_two_decimals)
  then show ?thesis using assms by (simp add: formatVolume_def js_ge_def b(1))
qed

lemma formatVolume_baekman:
  assumes "0 \<le> v" and "v < 1000000000"
  shows "formatVolume shortest toLocaleString (Num v)
           = toLocaleString (Num (of_int \<lfloor>round64 (v / 1000000) + 1 / 2\<rfloor>)) @ hangul_baekman"
proof -
  let ?q = "v / 1000000"
  have "0 \<le> ?q" "?q \<le> 1000" using assms by simp_all
  note b = binary64_up_to_1000[OF this]
  show ?thesis using assms by (simp add: formatVolume_def js_ge_def b(1))
qed

lemma formatVolume_example_jo:
  "formatVolume shortest toLocaleString (Num 1000000000000) = ''1.00'' @ hangul_jo"
  by (simp add: formatVolume_def js_ge_def binary64_1 Let_def digits.simps digit_char_def)

lemma formatVolume_example_eok:
  "formatVolume shortest toLocaleString (Num 2500000000) = ''2.50'' @ hangul_eok"
  by (simp add: formatVolume_def js_ge_def binary64_5_halves Let_def digits.simps digit_char_def)

lemma formatVolume_example_baekman:
  "formatVolume shortest toLocaleString (Num 999000000) = toLocaleString (Num 999) @ hangul_baekman"
  by (simp add: formatVolume_def js_ge_def binary64_999)

lemma round64_example_1e34: "round64 example_1e34 = example_1e34"
  using round64_int_times_pow2[of 8673617379884035 60] by (simp add: example_1e34_def)

lemma round64_example_quotient: "round64 (example_1e34 / 1000000000000) = 10 ^ 22"
proof -
  let ?q = "example_1e34 / 1000000000000"
  have "2 ^ 73 \<le> ?q" by (simp add: example_1e34_def)
  moreover have "?q < 2 ^ Suc 73" by (simp add: example_1e34_def)
  moreover have "(52::nat) \<le> 73" by simp
  ultimately have "round64 ?q = of_int (round_half_even (?q / 2 ^ (73 - 52))) * 2 ^ (73 - 52)"
    by (rule round64_in_binade)
  moreover have "round_half_even (?q / 2 ^ (73 - 52)) = 4768371582031250"
    by (simp add: example_1e34_def round_half_even_def Let_def)
  ultimately show ?thesis by simp
qed

lemma formatVolume_example_1e34:
  "formatVolume shortest toLocaleString (Num example_1e34)
     = (case shortest (10 ^ 22) of (d, n) \<Rightarrow> exponential d n) @ hangul_jo"
proof -
  have ge: "js_ge (Num example_1e34) (Num 1000000000000)"
    by (simp add: js_ge_def example_1e34_def)
  have "js_div (Num example_1e34) (Num 1000000000000) = binary64 (example_1e34 / 1000000000000)"
    by simp
  also have "\<dots> = Num (10 ^ 22)"
  proof -
    have "(10::real) ^ 22 \<le> 16 ^ 22" by (rule power_mono) simp_all
    also have "(16::real) ^ 22 = 2 ^ 88" by simp
    also have "(2::real) ^ 88 < 2 ^ 1024" by (rule power_strict_increasing) simp_all
    finally have "round64 (example_1e34 / 1000000000000) < 2 ^ 1024"
      by (simp only: round64_example_quotient)
    moreover have "0 \<le> example_1e34 / 1000000000000" by (simp add: example_1e34_def)
    ultimately have "binary64 (example_1e34 / 1000000000000)
        = Num (round64 (example_1e34 / 1000000000000))"
      by (intro binary64_finite)
    then show ?thesis by (simp only: round64_example_quotient)
  qed
  finally have q: "js_div (Num example_1e34) (Num 1000000000000) = Num (10 ^ 22)" .
  have "toFixed shortest (Num (10 ^ 22)) 2 = (case shortest (10 ^ 22) of (d, n) \<Rightarrow> exponential d n)"
    by (rule toFixed_exponential) simp
  then show ?thesis unfolding formatVolume_def Let_def using ge by (simp only: q if_True)
qed

lemma exponential_1_23: "exponential 1 23 = ''1e+22''"
  by (simp add: exponential_def digits.simps digit_char_def)

lemma round64_1005: "round64 (201 / 200) = 4526117625507348 / 2 ^ 52"
proof -
  have "round_half_even (201 / 200 * 2 ^ 52) = 4526117625507348"
    by (simp add: round_half_even_def Let_def)
  moreover have "round64 (201 / 200) = of_int (round_half_even (201 / 200 * 2 ^ 52)) / 2 ^ 52"
    by (rule round64_in_unit_binade) simp_all
  ultimately show ?thesis by simp
qed

lemma formatVolume_example_1005:
  "formatVolume shortest toLocaleString (Num 1005000000) = ''1.00'' @ hangul_eok"
proof -
  have "formatVolume shortest toLocaleString (Num 1005000000)
      = two_decimals (round64 (1005000000 / 1000000000)) @ hangul_eok"
    by (rule formatVolume_eok) simp_all
  also have "round64 (1005000000 / 1000000000) = 4526117625507348 / 2 ^ 52"
    using round64_1005 by simp
  also have "two_decimals (4526117625507348 / 2 ^ 52) = ''1.00''"
    by (simp add: two_decimals_def Let_def digits.simps digit_char_def)
  finally show ?thesis .
qed

lemma two_decimals_1005: "two_decimals (1005000000 / 1000000000) = ''1.01''"
  by (simp add: two_decimals_def Let_def digits.simps digit_char_def)

lemma formatVolume_jo_exponential:
  assumes "1000000000000 \<le> v" and "10 ^ 21 \<le> round64 (v / 1000000000000)"
      and "round64 (v / 1000000000000) < 2 ^ 1024"
  shows "formatVolume shortest toLocaleString (Num v)
           = (case shortest (round64 (v / 1000000000000)) of (d, n) \<Rightarrow> exponential d n) @ hangul_jo"
proof -
  let ?q = "v / 1000000000000"
  have q: "0 \<le> ?q" using assms(1) by simp
  from q assms(3) have b: "binary64 ?q = Num (round64 ?q)" by (rule binary64_finite)
  have "toFixed shortest (Num (round64 ?q)) 2
          = (case shortest (round64 ?q) of (d, n) \<Rightarrow> exponential d n)"
    using assms(2) by (rule toFixed_exponential)
  then show ?thesis using assms(1) by (simp add: formatVolume_def js_ge_def b)
qed

lemma round64_1e22: "round64 (10 ^ 22) = 10 ^ 22"
  using round64_int_times_pow2[of 2384185791015625 22] by simp

text \<open>
  Claim C10, as stated: for every non-negative volume at or above \<open>10^12\<close> the result
  is the volume divided by \<open>10^12\<close> with two decimals and the suffix. It fails where the
  quotient reaches \<open>10^21\<close> and \<open>toFixed\<close> returns \<open>ToString\<close> of it, in exponent
  notation: the binary64 value of \<open>1e34\<close> divided by \<open>10^12\<close> rounds to \<open>10^22\<close>, and
  the result is not a number with two decimals, whatever digits \<open>ToString\<close> chooses
  (it chooses 1 and the exponent 22: \<open>1e+22\<close>). Below that, the quotient is rounded to
  binary64 before it is written: 1005000000 gives \<open>1.00\<close>, where the quotient 1.005
  itself has the two decimals \<open>1.01\<close>.
\<close>

theorem formatVolume_exponent_notation:
  "round64 example_1e34 = example_1e34
   \<and> round64 (example_1e34 / 1000000000000) = 10 ^ 22
   \<and> round64 (10 ^ 22) = 10 ^ 22
   \<and> (\<forall>shortest toLocaleString.
         formatVolume shortest toLocaleString (Num example_1e34)
           = (case shortest (10 ^ 22) of (d, n) \<Rightarrow> exponential d n) @ hangul_jo)
   \<and> (\<forall>shortest toLocaleString.
         formatVolume shortest toLocaleString (Num example_1e34)
           \<noteq> two_decimals (example_1e34 / 1000000000000) @ hangul_jo)
   \<and> (\<forall>toLocaleString.
         formatVolume (\<lambda>x. (1, 23)) toLocaleString (Num example_1e34) = ''1e+22'' @ hangul_jo)
   \<and> (\<forall>shortest toLocaleString.
         formatVolume shortest toLocaleString (Num 1005000000) = ''1.00'' @ hangul_eok)
   \<and> two_decimals (1005000000 / 1000000000) = ''1.01''"
  using round64_example_1e34 round64_example_quotient round64_1e22 formatVolume_example_1e34
    exponential_not_two_decimals exponential_1_23 formatVolume_example_1005 two_decimals_1005
  by simp

text \<open>
  Claim C10, amended: for every non-negative volume \<open>v\<close>, with the quotient of \<open>v\<close> by
  the unit rounded to binary64: at or above \<open>10^12\<close>, \<open>formatVolume\<close> returns the
  quotient by \<open>10^12\<close> with two decimals and the first suffix when that quotient is below
  \<open>10^21\<close>, and in exponent notation from there on; at or above \<open>10^9\<close>, the quotient by
  \<open>10^9\<close> with two decimals and the second suffix; and otherwise the quotient by \<open>10^6\<close>
  rounded to the nearest integer, written by \<open>toLocaleString\<close> in the locale of the
  runtime, with the third suffix. The three examples of the specification hold, the
  third one in every locale that writes 999 as \<open>999\<close>.
\<close>

theorem formatVolume_units:
  assumes "0 \<le> v"
  shows "(1000000000000 \<le> v \<and> round64 (v / 1000000000000) < 10 ^ 21 \<longrightarrow>
            formatVolume shortest toLocaleString (Num v)
              = two_decimals (round64 (v / 1000000000000)) @ hangul_jo)
       \<and> (1000000000000 \<le> v \<and> 10 ^ 21 \<le> round64 (v / 1000000000000)
            \<and> round64 (v / 1000000000000) < 2 ^ 1024 \<longrightarrow>
            formatVolume shortest toLocaleString (Num v)
              = (case shortest (round64 (v / 1000000000000)) of (d, n) \<Rightarrow> exponential d n)
                @ hangul_jo)
       \<and> (1000000000 \<le> v \<and> v < 1000000000000 \<longrightarrow>
            formatVolume shortest toLocaleString (Num v)
              = two_decimals (round64 (v / 1000000000)) @ hangul_eok)
       \<and> (v < 1000000000 \<longrightarrow>
            formatVolume shortest toLocaleString (Num v)
              = toLocaleString (Num (of_int \<lfloor>round64 (v / 1000000) + 1 / 2\<rfloor>)) @ hangul_baekman)
       \<and> formatVolume shortest toLocaleString (Num 1000000000000) = ''1.00'' @ hangul_jo
       \<and> formatVolume shortest toLocaleString (Num 2500000000) = ''2.50'' @ hangul_eok
       \<and> formatVolume shortest toLocaleString (Num 999000000)
           = toLocaleString (Num 999) @ hangul_baekman"
proof (intro conjI impI)
  assume "1000000000000 \<le> v \<and> round64 (v / 1000000000000) < 10 ^ 21"
  then show "formatVolume shortest toLocaleString (Num v)
              = two_decimals (round64 (v / 1000000000000)) @ hangul_jo"
    by (elim conjE) (rule formatVolume_jo)
next
  assume "1000000000000 \<le> v \<and> 10 ^ 21 \<le> round64 (v / 1000000000000)
            \<and> round64 (v / 1000000000000) < 2 ^ 1024"
  then show "formatVolume shortest toLocaleString (Num v)
              = (case shortest (round64 (v / 1000000000000)) of (d, n) \<Rightarrow> exponential d n)
                @ hangul_jo"
    by (elim conjE) (rule formatVolume_jo_exponential)
next
  assume "1000000000 \<le> v \<and> v < 1000000000000"
  then show "formatVolume shortest toLocaleString (Num v)
              = two_decimals (round64 (v / 1000000000)) @ hangul_eok"
    by (elim conjE) (rule formatVolume_eok)
next
  assume "v < 1000000000"
  with assms show "formatVolume shortest toLocaleString (Num v)
              = toLocaleString (Num (of_int \<lfloor>round64 (v / 1000000) + 1 / 2\<rfloor>)) @ hangul_baekman"
    by (rule formatVolume_baekman)
next
  show "formatVolume shortest toLocaleString (Num 1000000000000) = ''1.00'' @ hangul_jo"
    by (rule formatVolume_example_jo)
  show "formatVolume shortest toLocaleString (Num 2500000000) = ''2.50'' @ hangul_eok"
    by (rule formatVolume_example_eok)
  show "formatVolume shortest toLocaleString (Num 999000000)
           = toLocaleString (Num 999) @ hangul_baekman"
    by (rule formatVolume_example_baekman)
qed

theorem formatVolume_units_witness:
  "formatVolume (\<lambda>x. (1, 23)) (\<lambda>n. case n of Num x \<Rightarrow> digits (nat \<lfloor>x\<rfloor>) | _ \<Rightarrow> [])
       (Num 5000000000000) = ''5.00'' @ hangul_jo
   \<and> formatVolume (\<lambda>x. (1, 23)) (\<lambda>n. case n of Num x \<Rightarrow> digits (nat \<lfloor>x\<rfloor>) | _ \<Rightarrow> [])
       (Num 7500000000) = ''7.50'' @ hangul_eok
   \<and> formatVolume (\<lambda>x. (1, 23)) (\<lambda>n. case n of Num x \<Rightarrow> digits (nat \<lfloor>x\<rfloor>) | _ \<Rightarrow> [])
       (Num 500000000) = ''500'' @ hangul_baekman"
proof -
  have r5: "round64 5 = 5" using round64_int[of 5] by simp
  have r500: "round64 500 = 500" using round64_int[of 500] by simp
  have r75: "round64 (15 / 2) = 15 / 2"
  proof (rule round64_exact)
    show "(15::real) / 2 = of_int 15 * 2 powr of_int (- 1)" by (simp add: powr_minus)
    show "\<bar>15::int\<bar> < 2 ^ 53" by simp
    show "- 1074 \<le> (- 1::int)" by simp
  qed
  have t5: "two_decimals 5 = ''5.00''"
    by (simp add: two_decimals_def Let_def digits.simps digit_char_def)
  have t75: "two_decimals (15 / 2) = ''7.50''"
    by (simp add: two_decimals_def Let_def digits.simps digit_char_def)
  have d500: "digits 500 = ''500''"
    by (simp add: digits.simps digit_char_def)
  show ?thesis
    using formatVolume_units [of 5000000000000 "\<lambda>x. (1, 23)"
            "\<lambda>n. case n of Num x \<Rightarrow> digits (nat \<lfloor>x\<rfloor>) | _ \<Rightarrow> []"]
          formatVolume_units [of 7500000000 "\<lambda>x. (1, 23)"
            "\<lambda>n. case n of Num x \<Rightarrow> digits (nat \<lfloor>x\<rfloor>) | _ \<Rightarrow> []"]
          formatVolume_units [of 500000000 "\<lambda>x. (1, 23)"
            "\<lambda>n. case n of Num x \<Rightarrow> digits (nat \<lfloor>x\<rfloor>) | _ \<Rightarrow> []"]
    by (simp add: r5 r500 r75 t5 t75 d500)
qed

end
